theory Spec2Isabelle
  imports Complex_Main "HOL-Library.Word"
begin

section \<open>Python values and exceptions\<close>

text \<open>
  The exceptions that the modelled code can raise. \<open>BinasciiError\<close> is
  \<^verbatim>\<open>binascii.Error\<close>, a subclass of \<^verbatim>\<open>ValueError\<close>: a handler for
  \<^verbatim>\<open>binascii.Error\<close> does not catch a plain \<^verbatim>\<open>ValueError\<close>.
  \<open>HTTPError s\<close> is what \<^verbatim>\<open>raise_for_status\<close> raises for status \<open>s\<close>.
\<close>

datatype py_error =
    ValueError
  | BinasciiError
  | TypeError
  | AttributeError
  | OverflowError
  | OSError
  | JSONDecodeError
  | KeyError
  | RequestException
  | HTTPError int

type_synonym byte = "8 word"

text \<open>
  A Python \<^verbatim>\<open>str\<close> is modelled by its UTF-8 bytes as a \<^typ>\<open>string\<close>: a string is
  ASCII exactly when every byte is below 128, and for an ASCII string the bytes are the
  characters.
\<close>

definition is_ascii :: "string \<Rightarrow> bool" where
  "is_ascii s = list_all (\<lambda>c. (of_char c :: nat) < 128) s"

section \<open>Slices and byte strings\<close>

text \<open>
  \<^verbatim>\<open>xs[a:b]\<close> for integer bounds: a negative bound counts from the end, and every
  bound is clamped into \<open>0..len\<close>.
\<close>

definition clamp_index :: "int \<Rightarrow> nat \<Rightarrow> nat" where
  "clamp_index i n = (if i < 0 then nat (max 0 (int n + i)) else min (nat i) n)"

definition py_slice :: "'a list \<Rightarrow> int \<Rightarrow> int \<Rightarrow> 'a list" where
  "py_slice xs a b =
     (let s = clamp_index a (length xs); e = clamp_index b (length xs)
      in take (e - s) (drop s xs))"

text \<open>\<^verbatim>\<open>int.from_bytes(bs, "little", signed=False)\<close>\<close>

fun from_bytes_little :: "byte list \<Rightarrow> int" where
  "from_bytes_little [] = 0"
| "from_bytes_little (b # bs) = uint b + 256 * from_bytes_little bs"

text \<open>\<^verbatim>\<open>bytes.hex()\<close>: two lower-case hexadecimal digits per byte.\<close>

definition hex_char :: "nat \<Rightarrow> char" where
  "hex_char d = (if d < 10 then char_of (48 + d) else char_of (87 + d))"

definition hex :: "byte list \<Rightarrow> string" where
  "hex bs = concat (map (\<lambda>b. [hex_char (unat b div 16), hex_char (unat b mod 16)]) bs)"

text \<open>
  \<^verbatim>\<open>binascii.unhexlify\<close> on a \<^verbatim>\<open>str\<close>: a non-ASCII string is a \<^verbatim>\<open>ValueError\<close>;
  an odd length or a character that is not one of \<open>0-9a-fA-F\<close> is a
  \<^verbatim>\<open>binascii.Error\<close>.
\<close>

definition hex_digit :: "char \<Rightarrow> nat option" where
  "hex_digit c =
     (let k = (of_char c :: nat) in
      if 48 \<le> k \<and> k \<le> 57 then Some (k - 48)
      else if 97 \<le> k \<and> k \<le> 102 then Some (k - 87)
      else if 65 \<le> k \<and> k \<le> 70 then Some (k - 55)
      else None)"

fun a2b_pairs :: "string \<Rightarrow> byte list option" where
  "a2b_pairs [] = Some []"
| "a2b_pairs [a] = None"
| "a2b_pairs (a # b # cs) =
     (case (hex_digit a, hex_digit b) of
        (Some t, Some l) \<Rightarrow>
          (case a2b_pairs cs of None \<Rightarrow> None | Some bs \<Rightarrow> Some (of_nat (16 * t + l) # bs))
      | _ \<Rightarrow> None)"

definition unhexlify :: "string \<Rightarrow> py_error + byte list" where
  "unhexlify s =
     (if \<not> is_ascii s then Inl ValueError
      else if odd (length s) then Inl BinasciiError
      else (case a2b_pairs s of None \<Rightarrow> Inl BinasciiError | Some bs \<Rightarrow> Inr bs))"

section \<open>Payload decoder\<close>

definition plausible :: "int \<Rightarrow> bool" where
  "plausible x \<longleftrightarrow> 0 < x \<and> x < 10 ^ 12"

text \<open>
  The loop of \<^verbatim>\<open>find_tail_amounts\<close>: \<open>i\<close> is the scan position, \<open>chunks\<close> the
  amounts appended so far (last amount first).
\<close>

function tail_loop :: "byte list \<Rightarrow> int \<Rightarrow> int list \<Rightarrow> int \<times> int list" where
  "tail_loop raw i chunks =
     (if i \<ge> 8 then
        (let x = from_bytes_little (py_slice raw (i - 8) i) in
         if plausible x then tail_loop raw (i - 8) (chunks @ [x])
         else (i, chunks))
      else (i, chunks))"
  by pat_completeness auto
termination
  by (relation "measure (\<lambda>(raw, i, chunks). nat i)") auto

definition find_tail_amounts :: "byte list \<Rightarrow> int \<times> int \<times> int list" where
  "find_tail_amounts raw =
     (case tail_loop raw (int (length raw)) [] of
        (i, chunks) \<Rightarrow> (i, int (length chunks), rev chunks))"

definition decode_qutil_outputs :: "string \<Rightarrow> py_error + (byte list \<times> int) list" where
  "decode_qutil_outputs input_hex =
     (case unhexlify input_hex of
        Inl BinasciiError \<Rightarrow> Inr []
      | Inl e \<Rightarrow> Inl e
      | Inr raw \<Rightarrow>
          (case find_tail_amounts raw of
             (amt_start, n, amounts) \<Rightarrow>
               if n = 0 then Inr []
               else
                 (let addr_block = py_slice raw (amt_start - n * 32) amt_start in
                  if int (length addr_block) \<noteq> n * 32 then Inr []
                  else
                    (let recipients = map (\<lambda>i. py_slice addr_block (i * 32) ((i + 1) * 32)) [0..n - 1]
                     in Inr (zip recipients amounts)))))"

section \<open>JSON values as Python objects\<close>

text \<open>
  What \<^verbatim>\<open>json.load\<close> returns. A finite float is kept as the rational it denotes, which is
  enough for \<^verbatim>\<open>int()\<close>, \<^verbatim>\<open>==\<close> and truthiness. An object is an association list
  (\<^verbatim>\<open>json.load\<close> never yields a duplicate key); Python's \<^verbatim>\<open>None\<close> is \<open>JNull\<close>.
\<close>

datatype pyfloat = FNan | FInf | FFinite rat

datatype json =
    JNull
  | JBool bool
  | JInt int
  | JFloat pyfloat
  | JStr string
  | JArr "json list"
  | JObj "(string \<times> json) list"

fun truthy :: "json \<Rightarrow> bool" where
  "truthy JNull = False"
| "truthy (JBool b) = b"
| "truthy (JInt n) = (n \<noteq> 0)"
| "truthy (JFloat f) = (f \<noteq> FFinite 0)"
| "truthy (JStr s) = (s \<noteq> [])"
| "truthy (JArr xs) = (xs \<noteq> [])"
| "truthy (JObj kvs) = (kvs \<noteq> [])"

text \<open>\<^verbatim>\<open>x == n\<close> for an integer \<open>n\<close>: \<^verbatim>\<open>True == 1\<close> and \<^verbatim>\<open>1.0 == 1\<close> hold in Python.\<close>

fun eq_int :: "json \<Rightarrow> int \<Rightarrow> bool" where
  "eq_int (JInt m) n = (m = n)"
| "eq_int (JBool b) n = ((if b then 1 else 0) = n)"
| "eq_int (JFloat (FFinite q)) n = (q = of_int n)"
| "eq_int _ n = False"

text \<open>\<^verbatim>\<open>x == s\<close> for a string \<open>s\<close>.\<close>

fun eq_str :: "json \<Rightarrow> string \<Rightarrow> bool" where
  "eq_str (JStr t) s = (t = s)"
| "eq_str _ s = False"

text \<open>\<^verbatim>\<open>x.get(k, d)\<close>: only a dict has \<^verbatim>\<open>get\<close>.\<close>

definition py_get :: "json \<Rightarrow> string \<Rightarrow> json \<Rightarrow> py_error + json" where
  "py_get x k d =
     (case x of
        JObj kvs \<Rightarrow> Inr (case map_of kvs k of Some v \<Rightarrow> v | None \<Rightarrow> d)
      | _ \<Rightarrow> Inl AttributeError)"

text \<open>\<^verbatim>\<open>k in x\<close> and \<^verbatim>\<open>x[k]\<close> on a dict.\<close>

definition has_key :: "json \<Rightarrow> string \<Rightarrow> bool" where
  "has_key x k = (case x of JObj kvs \<Rightarrow> map_of kvs k \<noteq> None | _ \<Rightarrow> False)"

definition py_item :: "json \<Rightarrow> string \<Rightarrow> py_error + json" where
  "py_item x k =
     (case x of
        JObj kvs \<Rightarrow> (case map_of kvs k of Some v \<Rightarrow> Inr v | None \<Rightarrow> Inl KeyError)
      | _ \<Rightarrow> Inl TypeError)"

text \<open>\<^verbatim>\<open>d[k] = v\<close> on a dict: an existing key keeps its place, a new key goes last.\<close>

fun dict_set :: "(string \<times> json) list \<Rightarrow> string \<Rightarrow> json \<Rightarrow> (string \<times> json) list" where
  "dict_set [] k v = [(k, v)]"
| "dict_set ((k', v') # kvs) k v = (if k' = k then (k, v) # kvs else (k', v') # dict_set kvs k v)"

section \<open>Environment and observable state\<close>

text \<open>
  The configuration and the outside world the scan reads from. \<open>START_TICK\<close>,
  \<open>END_TICK\<close> and \<open>TARGET_AMOUNT\<close> are the integers imported from the configuration
  module; \<open>QUTIL_DEST_ID\<close> is \<open>None\<close> or the filter string. \<open>http_json t\<close> is the outcome
  of \<^verbatim>\<open>polite_get\<close> followed by \<^verbatim>\<open>r.json()\<close> for tick \<open>t\<close>: an exception or the parsed
  body. \<open>int_of_str\<close> is the interpreter's \<^verbatim>\<open>int()\<close> on a string, \<open>py_str\<close> its
  formatting of a value inside an f-string, \<open>utcnow_iso k\<close> the \<open>k\<close>-th reading of the
  clock.
\<close>

record env =
  START_TICK :: int
  END_TICK :: int
  TARGET_AMOUNT :: int
  QUTIL_DEST_ID :: "string option"
  EXPLORER_BASE :: string
  http_json :: "int \<Rightarrow> py_error + json"
  int_of_str :: "string \<Rightarrow> py_error + int"
  py_str :: "json \<Rightarrow> string"
  utcnow_iso :: "nat \<Rightarrow> string"

text \<open>
  A file on disk, by what reading it does: \<open>Missing\<close> when \<^verbatim>\<open>Path.exists()\<close> is false;
  \<open>Inaccessible e\<close> when \<^verbatim>\<open>Path.exists()\<close> itself raises \<open>e\<close> (a path that cannot be
  examined: no permission on a directory, a name that is too long); \<open>Unreadable e\<close> when the
  file exists and opening or parsing it raises \<open>e\<close>; \<open>Content v\<close> when \<^verbatim>\<open>json.load\<close>
  returns \<open>v\<close>. Writing a file is taken to succeed and to read back as the value written.
\<close>

datatype disk_file = Missing | Inaccessible py_error | Unreadable py_error | Content json

text \<open>Lines printed by the scan, by their parts.\<close>

datatype line =
    Banner int int
  | Warn int py_error
  | Match json json string int string
  | Done

text \<open>
  What the scan does that can be seen from outside, in the order in which it does it: the
  call \<^verbatim>\<open>get_tick_transactions(tick)\<close>, a printed line, the call of
  \<^verbatim>\<open>decode_qutil_outputs\<close> with its argument, the call of \<^verbatim>\<open>append_match\<close> with its
  record, the call of \<^verbatim>\<open>save_state\<close> with its state.
\<close>

datatype event =
    Fetch int
  | Print line
  | Decode json
  | Append json
  | Save json

text \<open>
  The state the scan acts on: the two files, the events so far (oldest first) and the
  number of clock readings.
\<close>

record world =
  state_file :: disk_file
  results_file :: disk_file
  trace :: "event list"
  clock :: nat

definition emit :: "event \<Rightarrow> world \<Rightarrow> world" where
  "emit e w = w\<lparr>trace := trace w @ [e]\<rparr>"

text \<open>The arguments of the decoder calls, and the saved states, among some events.\<close>

fun decodes_of :: "event list \<Rightarrow> json list" where
  "decodes_of [] = []"
| "decodes_of (Decode hx # es) = hx # decodes_of es"
| "decodes_of (e # es) = decodes_of es"

fun saves_of :: "event list \<Rightarrow> json list" where
  "saves_of [] = []"
| "saves_of (Save s # es) = s # saves_of es"
| "saves_of (e # es) = saves_of es"

definition decoded :: "world \<Rightarrow> json list" where
  "decoded w = decodes_of (trace w)"

section \<open>Progress store and match store\<close>

definition default_state :: "env \<Rightarrow> json" where
  "default_state env = JObj [(''next_tick'', JInt (START_TICK env))]"

text \<open>
  \<^verbatim>\<open>load_state\<close>: the call \<^verbatim>\<open>pathlib.Path(STATE_FILE).exists()\<close> stands before the
  \<^verbatim>\<open>try\<close>, so what it raises leaves the function; what opening and parsing raise is
  caught.
\<close>

definition load_state :: "env \<Rightarrow> world \<Rightarrow> py_error + json" where
  "load_state env w =
     (case state_file w of
        Missing \<Rightarrow> Inr (default_state env)
      | Inaccessible e \<Rightarrow> Inl e
      | Unreadable e \<Rightarrow> Inr (default_state env)
      | Content v \<Rightarrow> Inr v)"

definition save_state :: "json \<Rightarrow> world \<Rightarrow> world" where
  "save_state state w = emit (Save state) (w\<lparr>state_file := Content state\<rparr>)"

text \<open>
  The read at the start of \<^verbatim>\<open>append_match\<close>: what the results file holds. Here too
  \<^verbatim>\<open>p.exists()\<close> stands before the \<^verbatim>\<open>try\<close>.
\<close>

definition read_results :: "world \<Rightarrow> py_error + json" where
  "read_results w =
     (case results_file w of
        Missing \<Rightarrow> Inr (JArr [])
      | Inaccessible e \<Rightarrow> Inl e
      | Unreadable e \<Rightarrow> Inr (JArr [])
      | Content v \<Rightarrow> Inr v)"

definition append_match :: "json \<Rightarrow> world \<Rightarrow> world \<times> py_error option" where
  "append_match rec w =
     (case read_results w of
        Inl e \<Rightarrow> (w, Some e)
      | Inr (JArr existing) \<Rightarrow> (w\<lparr>results_file := Content (JArr (existing @ [rec]))\<rparr>, None)
      | Inr _ \<Rightarrow> (w, Some AttributeError))"

section \<open>Fetch client\<close>

text \<open>
  What one call of \<^verbatim>\<open>session.get\<close> gives: a \<^verbatim>\<open>requests.RequestException\<close>, or a
  response with its status and its \<^verbatim>\<open>Retry-After\<close> header. The header is absent or
  empty (\<open>RA_missing\<close>), not a float (\<open>RA_invalid\<close>), a float that \<^verbatim>\<open>time.sleep\<close>
  accepts (\<open>RA_seconds\<close>), or a float that \<^verbatim>\<open>time.sleep\<close> rejects with an exception:
  negative, NaN or too large (\<open>RA_rejected\<close>).
\<close>

datatype retry_after = RA_missing | RA_invalid | RA_seconds | RA_rejected py_error

datatype outcome = ConnectionFailed | Response int retry_after

datatype fetch_result = Returned int | Raised py_error | Waiting

text \<open>\<^verbatim>\<open>Response.raise_for_status\<close> raises for the statuses 400 to 599 only.\<close>

definition raise_for_status :: "int \<Rightarrow> py_error option" where
  "raise_for_status st = (if 400 \<le> st \<and> st < 600 then Some (HTTPError st) else None)"

text \<open>
  \<^verbatim>\<open>min(30, 2 ** attempt + random.random())\<close>: the sum of the integer \<open>2 ** attempt\<close> and
  a float converts the integer to a float, which is an \<^verbatim>\<open>OverflowError\<close> from
  \<open>attempt = 1024\<close> on. Below that the value is a number between 0 and 30, which
  \<^verbatim>\<open>time.sleep\<close> accepts.
\<close>

definition backoff_error :: "int \<Rightarrow> py_error option" where
  "backoff_error attempt = (if attempt \<ge> 1024 then Some OverflowError else None)"

text \<open>
  The back-off of the 429 branch: a header that is a float is slept on as it is; without
  one, or with one that is not a float, the exponential back-off is computed.
\<close>

fun hint_error :: "int \<Rightarrow> retry_after \<Rightarrow> py_error option" where
  "hint_error attempt RA_missing = backoff_error attempt"
| "hint_error attempt RA_invalid = backoff_error attempt"
| "hint_error attempt RA_seconds = None"
| "hint_error attempt (RA_rejected e) = Some e"

definition one_more :: "fetch_result \<times> nat \<Rightarrow> fetch_result \<times> nat" where
  "one_more p = (fst p, Suc (snd p))"

text \<open>
  The loop of \<^verbatim>\<open>polite_get\<close> over the outcomes of its successive requests, from the
  current value of \<open>attempt\<close>. The result comes with the number of requests made;
  \<open>Waiting\<close> says that the loop has used every listed outcome and is about to send
  another request. The pacing and the length of the sleeps do not change the result.
\<close>

fun polite_loop :: "int \<Rightarrow> int \<Rightarrow> outcome list \<Rightarrow> fetch_result \<times> nat" where
  "polite_loop retries attempt [] = (Waiting, 0)"
| "polite_loop retries attempt (ConnectionFailed # rest) =
     (if attempt + 1 > retries then (Raised RequestException, 1)
      else
        (case backoff_error (attempt + 1) of
           Some e \<Rightarrow> (Raised e, 1)
         | None \<Rightarrow> one_more (polite_loop retries (attempt + 1) rest)))"
| "polite_loop retries attempt (Response st ra # rest) =
     (if st = 429 then
        (case (if attempt + 1 > retries then raise_for_status st else None) of
           Some e \<Rightarrow> (Raised e, 1)
         | None \<Rightarrow>
             (case hint_error (attempt + 1) ra of
                Some e \<Rightarrow> (Raised e, 1)
              | None \<Rightarrow> one_more (polite_loop retries (attempt + 1) rest)))
      else if st \<ge> 500 then
        (case (if attempt + 1 > retries then raise_for_status st else None) of
           Some e \<Rightarrow> (Raised e, 1)
         | None \<Rightarrow>
             (case backoff_error (attempt + 1) of
                Some e \<Rightarrow> (Raised e, 1)
              | None \<Rightarrow> one_more (polite_loop retries (attempt + 1) rest)))
      else
        (case raise_for_status st of
           Some e \<Rightarrow> (Raised e, 1)
         | None \<Rightarrow> (Returned st, 1)))"

definition polite_get :: "int \<Rightarrow> outcome list \<Rightarrow> fetch_result \<times> nat" where
  "polite_get retries outcomes = polite_loop retries 0 outcomes"

definition default_retries :: int where
  "default_retries = 6"

text \<open>An outcome that the loop answers with another request while the budget lasts.\<close>

fun retryable :: "outcome \<Rightarrow> bool" where
  "retryable ConnectionFailed = True"
| "retryable (Response st ra) = (st = 429 \<or> st \<ge> 500)"

definition get_tick_transactions :: "env \<Rightarrow> int \<Rightarrow> py_error + json list" where
  "get_tick_transactions env tick =
     (case http_json env tick of
        Inl e \<Rightarrow> Inl e
      | Inr data \<Rightarrow>
          (case py_get data ''transactions'' JNull of
             Inl e \<Rightarrow> Inl e
           | Inr txs \<Rightarrow> Inr (case txs of JArr xs \<Rightarrow> xs | _ \<Rightarrow> [])))"

section \<open>Scan driver\<close>

text \<open>\<^verbatim>\<open>int(x)\<close> on a value read from the progress file.\<close>

definition trunc_rat :: "rat \<Rightarrow> int" where
  "trunc_rat q = (if q < 0 then - \<lfloor>- q\<rfloor> else \<lfloor>q\<rfloor>)"

fun py_int :: "env \<Rightarrow> json \<Rightarrow> py_error + int" where
  "py_int env (JInt n) = Inr n"
| "py_int env (JBool b) = Inr (if b then 1 else 0)"
| "py_int env (JFloat FNan) = Inl ValueError"
| "py_int env (JFloat FInf) = Inl OverflowError"
| "py_int env (JFloat (FFinite q)) = Inr (trunc_rat q)"
| "py_int env (JStr s) = int_of_str env s"
| "py_int env JNull = Inl TypeError"
| "py_int env (JArr xs) = Inl TypeError"
| "py_int env (JObj kvs) = Inl TypeError"

text \<open>\<^verbatim>\<open>tx = (w or {}).get("transaction") or {}\<close>\<close>

definition wrap_tx :: "json \<Rightarrow> py_error + json" where
  "wrap_tx wr =
     (case py_get (if truthy wr then wr else JObj []) ''transaction'' JNull of
        Inl e \<Rightarrow> Inl e
      | Inr t \<Rightarrow> Inr (if truthy t then t else JObj []))"

text \<open>
  The two filters, each giving whether the transaction is skipped.
  \<^verbatim>\<open>QUTIL_DEST_ID and tx.get("destId") != QUTIL_DEST_ID\<close> reads the transaction only
  when the filter is a non-empty string.
\<close>

definition skip_by_dest :: "env \<Rightarrow> json \<Rightarrow> py_error + bool" where
  "skip_by_dest env tx =
     (case QUTIL_DEST_ID env of
        None \<Rightarrow> Inr False
      | Some d \<Rightarrow>
          if d = [] then Inr False
          else (case py_get tx ''destId'' JNull of
                  Inl e \<Rightarrow> Inl e
                | Inr v \<Rightarrow> Inr (\<not> eq_str v d)))"

definition skip_by_type :: "json \<Rightarrow> py_error + bool" where
  "skip_by_type tx =
     (case py_get tx ''inputType'' JNull of
        Inl e \<Rightarrow> Inl e
      | Inr v \<Rightarrow> Inr (\<not> eq_int v 1 \<or> \<not> has_key tx ''inputHex''))"

text \<open>The call \<^verbatim>\<open>decode_qutil_outputs(tx["inputHex"])\<close>: a value that is not a string is
  a \<^verbatim>\<open>TypeError\<close> in \<^verbatim>\<open>unhexlify\<close>.\<close>

definition decode_value :: "json \<Rightarrow> py_error + (byte list \<times> int) list" where
  "decode_value v = (case v of JStr s \<Rightarrow> decode_qutil_outputs s | _ \<Rightarrow> Inl TypeError)"

text \<open>\<^verbatim>\<open>txid\<close>, \<^verbatim>\<open>tick_no\<close> and \<^verbatim>\<open>explorer_url\<close> of a transaction.\<close>

definition describe_tx :: "env \<Rightarrow> int \<Rightarrow> json \<Rightarrow> py_error + (json \<times> json \<times> string)" where
  "describe_tx env tick tx =
     (case py_get tx ''txId'' JNull of
        Inl e \<Rightarrow> Inl e
      | Inr a \<Rightarrow>
          (case (if truthy a then Inr a else py_get tx ''id'' JNull) of
             Inl e \<Rightarrow> Inl e
           | Inr txid \<Rightarrow>
               (case py_get tx ''tickNumber'' (JInt tick) of
                  Inl e \<Rightarrow> Inl e
                | Inr tick_no \<Rightarrow>
                    Inr (txid, tick_no,
                         if truthy txid
                         then EXPLORER_BASE env @ ''/network/tx/'' @ py_str env txid @ ''?type=latest''
                         else []))))"

text \<open>The loop over the decoded outputs of one transaction.\<close>

fun record_matches ::
  "env \<Rightarrow> json \<Rightarrow> json \<Rightarrow> string \<Rightarrow> (byte list \<times> int) list \<Rightarrow> world \<Rightarrow> world \<times> py_error option"
where
  "record_matches env tick_no txid url [] w = (w, None)"
| "record_matches env tick_no txid url ((pk, amt) # rest) w =
     (if amt = TARGET_AMOUNT env then
        (let pubkey_hex = hex pk;
             w1 = emit (Print (Match tick_no txid pubkey_hex amt url)) w;
             rec = JObj [(''tick'', tick_no), (''txId'', txid), (''pubkey_hex'', JStr pubkey_hex),
                         (''amount'', JInt amt), (''explorer_url'', JStr url),
                         (''found_at'', JStr (utcnow_iso env (clock w1) @ ''Z''))];
             w2 = emit (Append rec) (w1\<lparr>clock := Suc (clock w1)\<rparr>)
         in case append_match rec w2 of
              (w3, Some e) \<Rightarrow> (w3, Some e)
            | (w3, None) \<Rightarrow> record_matches env tick_no txid url rest w3)
      else record_matches env tick_no txid url rest w)"

text \<open>The body of \<^verbatim>\<open>for w in wraps\<close> for one wrapper.\<close>

definition process_wrap :: "env \<Rightarrow> int \<Rightarrow> json \<Rightarrow> world \<Rightarrow> world \<times> py_error option" where
  "process_wrap env tick wr w =
     (case wrap_tx wr of
        Inl e \<Rightarrow> (w, Some e)
      | Inr tx \<Rightarrow>
          (case skip_by_dest env tx of
             Inl e \<Rightarrow> (w, Some e)
           | Inr True \<Rightarrow> (w, None)
           | Inr False \<Rightarrow>
               (case skip_by_type tx of
                  Inl e \<Rightarrow> (w, Some e)
                | Inr True \<Rightarrow> (w, None)
                | Inr False \<Rightarrow>
                    (case py_item tx ''inputHex'' of
                       Inl e \<Rightarrow> (w, Some e)
                     | Inr hx \<Rightarrow>
                         (let w1 = emit (Decode hx) w in
                          case decode_value hx of
                            Inl e \<Rightarrow> (w1, Some e)
                          | Inr outputs \<Rightarrow>
                              if outputs = [] then (w1, None)
                              else (case describe_tx env tick tx of
                                      Inl e \<Rightarrow> (w1, Some e)
                                    | Inr (txid, tick_no, url) \<Rightarrow>
                                        record_matches env tick_no txid url outputs w1))))))"

fun process_wraps :: "env \<Rightarrow> int \<Rightarrow> json list \<Rightarrow> world \<Rightarrow> world \<times> py_error option" where
  "process_wraps env tick [] w = (w, None)"
| "process_wraps env tick (wr # rest) w =
     (case process_wrap env tick wr w of
        (w1, Some e) \<Rightarrow> (w1, Some e)
      | (w1, None) \<Rightarrow> process_wraps env tick rest w1)"

text \<open>
  What both exits of a tick share: \<^verbatim>\<open>tick += 1\<close>, \<^verbatim>\<open>state["next_tick"] = tick\<close>,
  \<^verbatim>\<open>save_state(state)\<close>. The result is the updated dict and the world after the save.
\<close>

definition advance ::
  "(string \<times> json) list \<Rightarrow> int \<Rightarrow> world \<Rightarrow> (string \<times> json) list \<times> world" where
  "advance state tick w =
     (let state1 = dict_set state ''next_tick'' (JInt (tick + 1))
      in (state1, save_state (JObj state1) w))"

text \<open>
  The loop \<^verbatim>\<open>while tick <= end\<close>. An exception of the fetch is caught, logged and the
  tick is skipped; an exception raised while the transactions of a tick are processed
  is not caught and ends the scan.
\<close>

function scan_loop ::
  "env \<Rightarrow> (string \<times> json) list \<Rightarrow> int \<Rightarrow> world \<Rightarrow> world \<times> py_error option"
where
  "scan_loop env state tick w =
     (if tick \<le> END_TICK env then
        (case get_tick_transactions env tick of
           Inl e \<Rightarrow>
             scan_loop env
               (fst (advance state tick (emit (Print (Warn tick e)) (emit (Fetch tick) w))))
               (tick + 1)
               (snd (advance state tick (emit (Print (Warn tick e)) (emit (Fetch tick) w))))
         | Inr wraps \<Rightarrow>
             (case process_wraps env tick wraps (emit (Fetch tick) w) of
                (w1, Some e) \<Rightarrow> (w1, Some e)
              | (w1, None) \<Rightarrow>
                  scan_loop env (fst (advance state tick w1)) (tick + 1)
                    (snd (advance state tick w1))))
      else (w, None))"
  by pat_completeness auto
termination
  by (relation "measure (\<lambda>(env, state, tick, w). nat (END_TICK env - tick + 1))") auto

text \<open>
  \<^verbatim>\<open>scan\<close>: the state is loaded, \<^verbatim>\<open>state.get\<close> needs a dict, \<^verbatim>\<open>int()\<close> converts
  the stored cursor, and the loop runs. The progress bar is not modelled.
\<close>

definition initial_tick :: "env \<Rightarrow> json \<Rightarrow> py_error + int" where
  "initial_tick env state =
     (case py_get state ''next_tick'' (JInt (START_TICK env)) of
        Inl e \<Rightarrow> Inl e
      | Inr v \<Rightarrow> py_int env v)"

definition scan :: "env \<Rightarrow> world \<Rightarrow> world \<times> py_error option" where
  "scan env w =
     (case load_state env w of
        Inl e \<Rightarrow> (w, Some e)
      | Inr state \<Rightarrow>
          (case initial_tick env state of
             Inl e \<Rightarrow> (w, Some e)
           | Inr tick \<Rightarrow>
               (case state of
                  JObj kvs \<Rightarrow>
                    (case scan_loop env kvs tick (emit (Print (Banner tick (END_TICK env))) w) of
                       (w1, Some e) \<Rightarrow> (w1, Some e)
                     | (w1, None) \<Rightarrow> (emit (Print Done) w1, None))
                | _ \<Rightarrow> (w, Some AttributeError))))"

text \<open>The cursor that a saved state carries, when it is an object with an integer \<^verbatim>\<open>next_tick\<close>.\<close>

fun next_tick_of :: "json \<Rightarrow> int option" where
  "next_tick_of (JObj kvs) = (case map_of kvs ''next_tick'' of Some (JInt n) \<Rightarrow> Some n | _ \<Rightarrow> None)"
| "next_tick_of _ = None"

section \<open>A sample environment\<close>

text \<open>
  A small configuration used to run the definitions: ticks 10 to 12, target amount 5.
  The fetch of tick 10 fails; tick 11 holds three transactions with the same payload
  (one recipient, amount 5), of which the second has input type 2 and the third another
  destination; tick 12 is empty. \<open>sample_int_of_str\<close> gives \<^verbatim>\<open>int()\<close> on the two
  strings the examples use. In \<open>broken_env\<close> tick 11 holds one transaction whose
  \<^verbatim>\<open>inputHex\<close> is the non-ASCII string U+00E9, on which the decoder raises.
\<close>

definition sample_payload :: string where
  "sample_payload = hex (replicate 32 7 @ [5, 0, 0, 0, 0, 0, 0, 0])"

definition sample_tx :: "string \<Rightarrow> int \<Rightarrow> json" where
  "sample_tx dest ty =
     JObj [(''transaction'',
            JObj [(''destId'', JStr dest), (''inputType'', JInt ty),
                  (''inputHex'', JStr sample_payload), (''txId'', JStr ''tx1'')])]"

definition sample_http :: "int \<Rightarrow> py_error + json" where
  "sample_http t =
     (if t = 10 then Inl RequestException
      else if t = 11 then
        Inr (JObj [(''transactions'',
                    JArr [sample_tx ''QUTIL'' 1, sample_tx ''QUTIL'' 2, sample_tx ''OTHER'' 1])])
      else Inr (JObj [(''transactions'', JArr [])]))"

definition sample_int_of_str :: "string \<Rightarrow> py_error + int" where
  "sample_int_of_str s = (if s = ''11'' then Inr 11 else Inl ValueError)"

definition sample_str :: "json \<Rightarrow> string" where
  "sample_str v = (case v of JStr s \<Rightarrow> s | _ \<Rightarrow> ''?'')"

definition sample_env :: env where
  "sample_env =
     \<lparr>START_TICK = 10, END_TICK = 12, TARGET_AMOUNT = 5, QUTIL_DEST_ID = Some ''QUTIL'',
      EXPLORER_BASE = ''https://explorer.qubic.org'', http_json = sample_http,
      int_of_str = sample_int_of_str, py_str = sample_str,
      utcnow_iso = (\<lambda>k. ''2025-01-01T00:00:00'')\<rparr>"



definition fresh_world :: world where
  "fresh_world = \<lparr>state_file = Missing, results_file = Missing, trace = [], clock = 0\<rparr>"

section \<open>Auxiliary notions for the statements\<close>

text \<open>An outcome whose status, if it has one, is below 600.\<close>

fun below_600 :: "outcome \<Rightarrow> bool" where
  "below_600 ConnectionFailed = True"
| "below_600 (Response st ra) = (st < 600)"

text \<open>The failure behind an outcome: what \<^verbatim>\<open>polite_get\<close> re-raises for it.\<close>

fun underlying :: "outcome \<Rightarrow> py_error" where
  "underlying ConnectionFailed = RequestException"
| "underlying (Response st ra) = HTTPError st"

text \<open>A 429 whose \<^verbatim>\<open>Retry-After\<close> value \<^verbatim>\<open>time.sleep\<close> rejects.\<close>

fun rejected_hint :: "outcome \<Rightarrow> bool" where
  "rejected_hint (Response st (RA_rejected e)) = (st = 429)"
| "rejected_hint _ = False"

text \<open>
  \<open>ticked t es\<close> reads the events \<open>es\<close> as those of the ticks \<open>t\<close>, \<open>t + 1\<close>, ... in
  order. The events of a tick are its fetch, then what its processing prints, decodes and
  appends, then one save whose state carries \<open>next_tick = tick + 1\<close>; the next event, if
  any, is the fetch of the next tick. The result is the first tick that is not completed,
  and whether the events end inside it (after its fetch, before its save); \<open>None\<close> when the
  events are not of this form.
\<close>

fun ticked :: "int \<Rightarrow> event list \<Rightarrow> (int \<times> bool) option"
  and in_tick :: "int \<Rightarrow> event list \<Rightarrow> (int \<times> bool) option"
where
  "ticked t [] = Some (t, False)"
| "ticked t (e # es) =
     (case e of
        Fetch u \<Rightarrow> if u = t then in_tick t es else None
      | _ \<Rightarrow> None)"
| "in_tick t [] = Some (t, True)"
| "in_tick t (e # es) =
     (case e of
        Save s \<Rightarrow> if next_tick_of s = Some (t + 1) then ticked (t + 1) es else None
      | Fetch u \<Rightarrow> None
      | _ \<Rightarrow> in_tick t es)"

text \<open>Events among which there is no fetch and no save.\<close>

fun quiet :: "event list \<Rightarrow> bool" where
  "quiet [] = True"
| "quiet (Fetch u # es) = False"
| "quiet (Save s # es) = False"
| "quiet (e # es) = quiet es"

text \<open>
  \<open>quietly w w'\<close>: from \<open>w\<close> to \<open>w'\<close> the events grow by some among which there is no
  fetch and no save, and the progress file is the same.
\<close>

definition quietly :: "world \<Rightarrow> world \<Rightarrow> bool" where
  "quietly w w' \<longleftrightarrow> (\<exists>pe. trace w' = trace w @ pe \<and> quiet pe) \<and> state_file w' = state_file w"

text \<open>
  \<open>ticks_saved t new\<close>: the saved states \<open>new\<close> carry the cursors \<open>t + 1\<close>,
  \<open>t + 2\<close>, ... in this order. \<open>loop_run env tick w res evs\<close>: the run of the loop from
  \<open>tick\<close> and \<open>w\<close> with result \<open>res\<close> added the events \<open>evs\<close>, these are the events of
  the ticks from \<open>tick\<close> on with one save for each completed tick, they end inside a tick
  exactly when the run raised, and the progress file holds the last saved state.
\<close>

definition ticks_saved :: "int \<Rightarrow> json list \<Rightarrow> bool" where
  "ticks_saved t new \<longleftrightarrow> map next_tick_of new = map (\<lambda>j. Some (t + 1 + int j)) [0..<length new]"

definition loop_run ::
  "env \<Rightarrow> int \<Rightarrow> world \<Rightarrow> world \<times> py_error option \<Rightarrow> event list \<Rightarrow> bool" where
  "loop_run env tick w res evs \<longleftrightarrow>
       trace (fst res) = trace w @ evs
     \<and> ticked tick evs = Some (tick + int (length (saves_of evs)), snd res \<noteq> None)
     \<and> ticks_saved tick (saves_of evs)
     \<and> (snd res = None \<longrightarrow> int (length (saves_of evs)) = max 0 (END_TICK env - tick + 1))
     \<and> (snd res \<noteq> None \<longrightarrow> tick + int (length (saves_of evs)) \<le> END_TICK env)
     \<and> state_file (fst res) = (if saves_of evs = [] then state_file w else Content (last (saves_of evs)))"

declare tail_loop.simps [simp del]

declare scan_loop.simps [simp del]

section \<open>Hexadecimal round trip and slices\<close>


lemma hex_digit_hex_char: "d < 16 \<Longrightarrow> hex_digit (hex_char d) = Some d"
  by (auto simp: hex_digit_def hex_char_def Let_def)

lemma hex_char_ascii: "d < 16 \<Longrightarrow> (of_char (hex_char d) :: nat) < 128"
  by (auto simp: hex_char_def)

lemma unat_byte_div16: "unat (b :: byte) div 16 < 16"
proof -
  have "unat b < 2 ^ LENGTH(8)" by (rule unsigned_less)
  then show ?thesis by simp
qed

lemma is_ascii_hex: "is_ascii (hex bs)"
  by (induction bs) (simp_all add: is_ascii_def hex_def hex_char_ascii unat_byte_div16)

lemma length_hex: "length (hex bs) = 2 * length bs"
  by (induction bs) (simp_all add: hex_def)

lemma a2b_pairs_hex: "a2b_pairs (hex bs) = Some bs"
  by (induction bs) (simp_all add: hex_def hex_digit_hex_char unat_byte_div16)

lemma unhexlify_hex: "unhexlify (hex bs) = Inr bs"
  by (simp add: unhexlify_def is_ascii_hex length_hex a2b_pairs_hex)

lemma py_slice_nonneg:
  "0 \<le> a \<Longrightarrow> 0 \<le> b \<Longrightarrow> py_slice xs a b = take (min (nat b) (length xs) - min (nat a) (length xs)) (drop (min (nat a) (length xs)) xs)"
  by (simp add: py_slice_def clamp_index_def Let_def)

lemma py_slice_middle:
  "py_slice (A @ c @ S) (int (length A)) (int (length A) + int (length c)) = c"
  by (simp add: py_slice_nonneg nat_add_distrib min_def)

lemma tail_loop_amounts:
  assumes "\<forall>c\<in>set cs. length c = 8 \<and> plausible (from_bytes_little c)"
  shows "tail_loop (P @ concat cs @ S) (int (length P) + 8 * int (length cs)) acc
       = tail_loop (P @ concat cs @ S) (int (length P)) (acc @ rev (map from_bytes_little cs))"
  using assms
proof (induction cs arbitrary: S acc rule: rev_induct)
  case Nil
  then show ?case by simp
next
  case (snoc c cs)
  have len: "length c = 8" and pl: "plausible (from_bytes_little c)" using snoc.prems by auto
  let ?raw = "P @ concat (cs @ [c]) @ S"
  let ?i = "int (length P) + 8 * int (length (cs @ [c]))"
  have raw: "?raw = (P @ concat cs) @ c @ S" by simp
  have len_pc: "int (length (P @ concat cs)) = int (length P) + 8 * int (length cs)"
    using snoc.prems by (induction cs) auto
  have sl: "py_slice ?raw (?i - 8) ?i = c"
    using py_slice_middle[of "P @ concat cs" c S] len len_pc by (simp add: algebra_simps)
  have ge: "?i \<ge> 8" by simp
  have "tail_loop ?raw ?i acc = tail_loop ?raw (?i - 8) (acc @ [from_bytes_little c])"
    by (subst tail_loop.simps) (simp only: ge sl pl Let_def if_True)
  also have "?i - 8 = int (length P) + 8 * int (length cs)" by simp
  also have "tail_loop ?raw (int (length P) + 8 * int (length cs)) (acc @ [from_bytes_little c])
     = tail_loop ?raw (int (length P)) ((acc @ [from_bytes_little c]) @ rev (map from_bytes_little cs))"
    using snoc.IH[of "c @ S" "acc @ [from_bytes_little c]"] snoc.prems by simp
  finally show ?case by simp
qed

section \<open>The backward scan on a well-shaped payload\<close>

lemma length_concat_fixed:
  "\<forall>r\<in>set rs. length r = k \<Longrightarrow> length (concat rs) = k * length rs"
  by (induction rs) auto

lemma take_drop_concat_fixed:
  "\<forall>r\<in>set rs. length r = k \<Longrightarrow> i < length rs \<Longrightarrow>
     take k (drop (k * i) (concat rs)) = rs ! i"
proof (induction rs arbitrary: i)
  case Nil
  then show ?case by simp
next
  case (Cons r rs)
  show ?case
  proof (cases i)
    case 0
    with Cons.prems show ?thesis by simp
  next
    case (Suc j)
    with Cons.prems Cons.IH[of j] show ?thesis by simp
  qed
qed

lemma recipients_of_concat:
  assumes "\<forall>r\<in>set rs. length r = 32"
  shows "map (\<lambda>i. py_slice (concat rs) (i * 32) ((i + 1) * 32)) [0..int (length rs) - 1] = rs"
proof (rule nth_equalityI)
  show "length (map (\<lambda>i. py_slice (concat rs) (i * 32) ((i + 1) * 32)) [0..int (length rs) - 1]) = length rs"
    by simp
next
  fix j assume "j < length (map (\<lambda>i. py_slice (concat rs) (i * 32) ((i + 1) * 32)) [0..int (length rs) - 1])"
  then have j: "j < length rs" by simp
  have len: "length (concat rs) = 32 * length rs" using assms by (rule length_concat_fixed)
  have "py_slice (concat rs) (int j * 32) ((int j + 1) * 32) = take 32 (drop (32 * j) (concat rs))"
    using j by (simp add: py_slice_nonneg len nat_add_distrib nat_mult_distrib min_def mult.commute)
  also have "\<dots> = rs ! j" using assms j by (rule take_drop_concat_fixed)
  finally show "map (\<lambda>i. py_slice (concat rs) (i * 32) ((i + 1) * 32)) [0..int (length rs) - 1] ! j = rs ! j"
    using j by simp
qed

lemma last_bytes_concat:
  assumes "rs \<noteq> []" "\<forall>r\<in>set rs. length r = 32"
  shows "py_slice (concat rs @ S) (int (length (concat rs)) - 8) (int (length (concat rs)))
       = drop 24 (last rs)"
proof -
  obtain ps r where rs: "rs = ps @ [r]" using assms(1) by (metis rev_exhaust)
  have lr: "length r = 32" using assms(2) rs by simp
  let ?A = "concat ps @ take 24 r"
  have 1: "concat rs @ S = ?A @ drop 24 r @ S"
    using rs by simp
  have 2: "int (length (concat rs)) - 8 = int (length ?A)"
    using rs lr by simp
  have 3: "int (length (concat rs)) = int (length ?A) + int (length (drop 24 r))"
    using rs lr by simp
  have "py_slice (concat rs @ S) (int (length (concat rs)) - 8) (int (length (concat rs)))
      = py_slice (?A @ drop 24 r @ S) (int (length ?A)) (int (length ?A) + int (length (drop 24 r)))"
    by (simp only: 1 2) (simp only: 3)
  also have "\<dots> = drop 24 r" by (rule py_slice_middle)
  finally show ?thesis using rs by simp
qed

lemma find_tail_amounts_shaped:
  assumes ne: "recips \<noteq> []"
    and r32: "\<forall>r\<in>set recips. length r = 32"
    and ch: "\<forall>c\<in>set chunks. length c = 8 \<and> plausible (from_bytes_little c)"
    and stop: "\<not> plausible (from_bytes_little (drop 24 (last recips)))"
  shows "find_tail_amounts (concat recips @ concat chunks)
       = (int (length (concat recips)), int (length chunks), map from_bytes_little chunks)"
proof -
  let ?R = "concat recips" and ?raw = "concat recips @ concat chunks"
  have lenc: "length (concat chunks) = 8 * length chunks"
    using ch by (intro length_concat_fixed) simp
  have lenR: "length ?R = 32 * length recips" using r32 by (rule length_concat_fixed)
  have ge: "int (length ?R) \<ge> 8" using ne lenR by (cases recips) auto
  have "tail_loop ?raw (int (length ?raw)) [] = tail_loop ?raw (int (length ?R) + 8 * int (length chunks)) []"
    by (simp add: lenc)
  also have "\<dots> = tail_loop ?raw (int (length ?R)) (rev (map from_bytes_little chunks))"
    using tail_loop_amounts[OF ch, of ?R "[]" "[]"] by simp
  also have "\<dots> = (int (length ?R), rev (map from_bytes_little chunks))"
    by (subst tail_loop.simps) (simp only: ge if_True Let_def last_bytes_concat[OF ne r32] stop if_False)
  finally show ?thesis by (simp add: find_tail_amounts_def)
qed

lemma tail_loop_stop:
  "i < 8 \<or> \<not> plausible (from_bytes_little (py_slice raw (i - 8) i)) \<Longrightarrow> tail_loop raw i acc = (i, acc)"
  by (subst tail_loop.simps) (auto simp: Let_def)

section \<open>Properties of the payload decoder\<close>

text \<open>
  Claim C1, as amended. A payload of \<open>n \<ge> 1\<close> recipient identifiers of 32 bytes followed by
  \<open>n\<close> chunks of 8 bytes, each reading little-endian as a value strictly between 0 and
  \<open>10^12\<close>, decodes from its hex encoding to exactly those \<open>n\<close> pairs in order, provided
  the last 8 bytes of the last recipient identifier do not themselves read as such a value
  (otherwise the backward scan runs on into the recipient block).
\<close>

theorem decode_shaped:
  assumes ne: "recips \<noteq> []"
    and len: "length chunks = length recips"
    and r32: "\<forall>r\<in>set recips. length r = 32"
    and ch: "\<forall>c\<in>set chunks. length c = 8 \<and> plausible (from_bytes_little c)"
    and stop: "\<not> plausible (from_bytes_little (drop 24 (last recips)))"
  shows "decode_qutil_outputs (hex (concat recips @ concat chunks))
       = Inr (zip recips (map from_bytes_little chunks))"
proof -
  let ?R = "concat recips" and ?n = "int (length chunks)"
  have lenR: "length ?R = 32 * length recips" using r32 by (rule length_concat_fixed)
  have n0: "?n \<noteq> 0" using ne len by simp
  have start: "int (length ?R) - ?n * 32 = 0" using len lenR by simp
  have blk: "py_slice (?R @ concat chunks) 0 (int (length ?R)) = ?R"
    by (simp add: py_slice_nonneg)
  have blen: "(int (length ?R) \<noteq> ?n * 32) = False" using len lenR by simp
  have blk': "py_slice (?R @ concat chunks) (int (length ?R) - ?n * 32) (int (length ?R)) = ?R"
    by (simp only: start blk)
  have rec: "map (\<lambda>i. py_slice ?R (i * 32) ((i + 1) * 32)) [0..?n - 1] = recips"
    using recipients_of_concat[OF r32] len by simp
  show ?thesis
    unfolding decode_qutil_outputs_def unhexlify_hex
    by (simp only: find_tail_amounts_shaped[OF ne r32 ch stop] sum.case prod.case n0 if_False
          blk' blen Let_def rec simp_thms)
qed

theorem decode_shaped_witness:
  "\<not> plausible (from_bytes_little (drop 24 (last [replicate 32 7, replicate 32 9])))
   \<and> decode_qutil_outputs
     (hex (concat [replicate 32 7, replicate 32 9] @ concat [[5, 0, 0, 0, 0, 0, 0, 0], [6, 1, 0, 0, 0, 0, 0, 0]]))
   = Inr [(replicate 32 7, 5), (replicate 32 9, 262)]"
proof -
  have stop: "\<not> plausible (from_bytes_little (drop 24 (last [replicate 32 7, replicate 32 9])))"
    by code_simp
  have ch: "\<forall>c\<in>set [[5, 0, 0, 0, 0, 0, 0, 0], [6, 1, 0, 0, 0, 0, 0, 0 :: byte]].
              length c = 8 \<and> plausible (from_bytes_little c)"
    by (simp add: plausible_def)
  show ?thesis
    using stop decode_shaped [OF _ _ _ ch stop] by simp
qed

text \<open>
  Claim C1 as stated fails: one recipient whose last 8 bytes read as the amount 1, followed by
  the amount 5. The scan collects two amounts, the recipient block is then too short, and the
  decoder returns the empty list instead of the one pair.
\<close>

theorem decode_shaped_counterexample:
  "length (replicate 24 (255 :: byte) @ [1, 0, 0, 0, 0, 0, 0, 0]) = 32
   \<and> length [5 :: byte, 0, 0, 0, 0, 0, 0, 0] = 8
   \<and> plausible (from_bytes_little [5, 0, 0, 0, 0, 0, 0, 0])
   \<and> decode_qutil_outputs
        (hex (concat [replicate 24 255 @ [1, 0, 0, 0, 0, 0, 0, 0]] @ concat [[5, 0, 0, 0, 0, 0, 0, 0]]))
      = Inr []
   \<and> zip [replicate 24 (255 :: byte) @ [1, 0, 0, 0, 0, 0, 0, 0]]
          (map from_bytes_little [[5, 0, 0, 0, 0, 0, 0, 0]]) \<noteq> []"
  by code_simp

text \<open>
  Claim C2 at a failing input. The two-byte string is the UTF-8 form of the one-character
  string U+00E9: \<^verbatim>\<open>binascii.unhexlify\<close> rejects a non-ASCII string with a plain
  \<^verbatim>\<open>ValueError\<close>, which the handler for \<^verbatim>\<open>binascii.Error\<close> does not catch, so
  \<^verbatim>\<open>decode_qutil_outputs\<close> raises.
\<close>

theorem decode_non_ascii_raises:
  "decode_qutil_outputs [CHR 0xC3, CHR 0xA9] = Inl ValueError"
  by code_simp

text \<open>
  Claim C7. When the hex string decodes to fewer than 8 bytes, or when the last 8 bytes read
  little-endian as a value that is not strictly between 0 and \<open>10^12\<close>, the decoder
  returns the empty list.
\<close>

theorem decode_short_or_implausible:
  assumes "unhexlify s = Inr raw"
    and "length raw < 8 \<or> \<not> plausible (from_bytes_little (drop (length raw - 8) raw))"
  shows "decode_qutil_outputs s = Inr []"
proof -
  have "py_slice raw (int (length raw) - 8) (int (length raw)) = drop (length raw - 8) raw"
    if "length raw \<ge> 8"
    using that by (simp add: py_slice_nonneg nat_diff_distrib min_def)
  then have "tail_loop raw (int (length raw)) [] = (int (length raw), [])"
    using assms(2) by (intro tail_loop_stop) auto
  then show ?thesis
    by (simp add: decode_qutil_outputs_def assms(1) find_tail_amounts_def)
qed

theorem decode_short_or_implausible_witness:
  "unhexlify ''00ff'' = Inr [0, 255] \<and> length [0 :: byte, 255] < 8
   \<and> decode_qutil_outputs ''00ff'' = Inr []"
proof -
  have h: "unhexlify ''00ff'' = Inr [0, 255]" by code_simp
  show ?thesis using h decode_short_or_implausible [OF h] by simp
qed

section \<open>Properties of the stores\<close>

text \<open>
  Claim C6 at a failing input. A progress file whose path cannot be examined
  (\<^verbatim>\<open>Path.exists()\<close> raises \<^verbatim>\<open>OSError\<close>, as it does for a file name that is too long):
  the call stands before the \<^verbatim>\<open>try\<close>, so \<^verbatim>\<open>load_state\<close> raises instead of returning the
  default state.
\<close>

theorem load_state_inaccessible_raises:
  "load_state sample_env (fresh_world\<lparr>state_file := Inaccessible OSError\<rparr>) = Inl OSError"
  by (simp add: load_state_def)

text \<open>
  What the handler does catch: a missing file, and a file whose opening or parsing raises,
  give the default state.
\<close>

lemma load_state_caught:
  "state_file w = Missing \<or> state_file w = Unreadable e \<Longrightarrow>
     load_state env w = Inr (JObj [(''next_tick'', JInt (START_TICK env))])"
  by (auto simp: load_state_def default_state_def)

text \<open>
  Claim C9. When the results file reads as a collection \<open>existing\<close> (a missing or unreadable
  file reads as the empty one), \<^verbatim>\<open>append_match(rec)\<close> does not raise, and reading the
  file again gives \<open>existing\<close> with \<open>rec\<close>, unchanged, at the end.
\<close>

theorem append_match_round_trip:
  assumes "read_results w = Inr (JArr existing)"
  shows "snd (append_match rec w) = None
       \<and> read_results (fst (append_match rec w)) = Inr (JArr (existing @ [rec]))"
  using assms by (simp add: append_match_def read_results_def)

theorem append_match_round_trip_witness:
  "read_results (fresh_world\<lparr>results_file := Content (JArr [JInt 1])\<rparr>) = Inr (JArr [JInt 1])
   \<and> snd (append_match (JStr ''r'') (fresh_world\<lparr>results_file := Content (JArr [JInt 1])\<rparr>)) = None
   \<and> read_results (fst (append_match (JStr ''r'') (fresh_world\<lparr>results_file := Content (JArr [JInt 1])\<rparr>)))
       = Inr (JArr [JInt 1, JStr ''r''])"
proof -
  have h: "read_results (fresh_world\<lparr>results_file := Content (JArr [JInt 1])\<rparr>) = Inr (JArr [JInt 1])"
    by (simp add: read_results_def)
  show ?thesis using h append_match_round_trip [OF h, of "JStr ''r''"] by simp
qed

section \<open>Properties of the fetch client\<close>

lemma fst_one_more [simp]: "fst (one_more p) = fst p"
  and snd_one_more [simp]: "snd (one_more p) = Suc (snd p)"
  by (simp_all add: one_more_def)

lemma backoff_ok: "attempt < 1024 \<Longrightarrow> backoff_error attempt = None"
  by (simp add: backoff_error_def)

lemma polite_loop_le_length: "snd (polite_loop retries attempt rs) \<le> length rs"
proof (induction rs arbitrary: attempt)
  case Nil
  then show ?case by simp
next
  case (Cons x rs)
  have ih: "snd (polite_loop retries (attempt + 1) rs) \<le> length rs" by (rule Cons.IH)
  show ?case
    using ih by (cases x) (auto split: option.splits)
qed

lemma polite_loop_positive: "rs \<noteq> [] \<Longrightarrow> 0 < snd (polite_loop retries attempt rs)"
proof (cases rs)
  case Nil
  then show "rs \<noteq> [] \<Longrightarrow> ?thesis" by simp
next
  case (Cons x xs)
  then show ?thesis by (cases x) (auto split: option.splits)
qed

lemma polite_loop_waiting:
  "fst (polite_loop retries attempt rs) = Waiting \<Longrightarrow> snd (polite_loop retries attempt rs) = length rs"
proof (induction rs arbitrary: attempt)
  case Nil
  then show ?case by simp
next
  case (Cons x rs)
  have ih: "fst (polite_loop retries (attempt + 1) rs) = Waiting \<Longrightarrow>
      snd (polite_loop retries (attempt + 1) rs) = length rs" by (rule Cons.IH)
  show ?case
    using Cons.prems ih by (cases x) (auto split: option.splits if_splits)
qed

lemma polite_loop_count:
  "\<forall>x\<in>set rs. below_600 x \<Longrightarrow> snd (polite_loop retries attempt rs) \<le> nat (retries - attempt) + 1"
proof (induction rs arbitrary: attempt)
  case Nil
  then show ?case by simp
next
  case (Cons x rs)
  have ih: "snd (polite_loop retries (attempt + 1) rs) \<le> nat (retries - (attempt + 1)) + 1"
    using Cons by simp
  show ?case
  proof (cases x)
    case ConnectionFailed
    with ih show ?thesis by (auto split: option.splits)
  next
    case (Response st ra)
    with Cons.prems have "st < 600" by simp
    with ih Response show ?thesis
      by (auto simp: raise_for_status_def split: option.splits)
  qed
qed

lemma polite_loop_answers:
  "\<forall>x\<in>set rs. below_600 x \<Longrightarrow> nat (retries - attempt) + 1 \<le> length rs \<Longrightarrow>
     fst (polite_loop retries attempt rs) \<noteq> Waiting"
proof (induction rs arbitrary: attempt)
  case Nil
  then show ?case by simp
next
  case (Cons x rs)
  have ih: "\<not> attempt + 1 > retries \<Longrightarrow> fst (polite_loop retries (attempt + 1) rs) \<noteq> Waiting"
    using Cons.prems by (intro Cons.IH) auto
  show ?case
  proof (cases x)
    case ConnectionFailed
    with ih show ?thesis by (auto split: option.splits)
  next
    case (Response st ra)
    with Cons.prems have "st < 600" by simp
    with ih Response show ?thesis
      by (auto simp: raise_for_status_def split: option.splits)
  qed
qed

lemma polite_loop_head_retried:
  assumes "below_600 x" and "Suc i < snd (polite_loop retries attempt (x # rs))"
  shows "retryable x \<and> attempt < retries \<and> Suc i < Suc (snd (polite_loop retries (attempt + 1) rs))"
proof (cases x)
  case ConnectionFailed
  with assms(2) show ?thesis by (auto split: if_splits option.splits)
next
  case (Response st ra)
  with assms(1) have "st < 600" by simp
  with Response assms(2) show ?thesis
    by (auto simp: raise_for_status_def split: if_splits option.splits)
qed

lemma polite_loop_retries_only:
  "\<forall>x\<in>set rs. below_600 x \<Longrightarrow> Suc j < snd (polite_loop retries attempt rs) \<Longrightarrow>
     retryable (rs ! j) \<and> attempt + int j < retries"
proof (induction rs arbitrary: attempt j)
  case Nil
  then show ?case by simp
next
  case (Cons x rs)
  have b: "below_600 x" using Cons.prems(1) by simp
  note hd = polite_loop_head_retried [OF b Cons.prems(2)]
  show ?case
  proof (cases j)
    case 0
    with hd show ?thesis by simp
  next
    case (Suc i)
    have "Suc i < snd (polite_loop retries (attempt + 1) rs)" using hd Suc by simp
    then have "retryable (rs ! i) \<and> attempt + 1 + int i < retries"
      using Cons.prems(1) by (intro Cons.IH) simp_all
    with Suc show ?thesis by simp
  qed
qed

lemma polite_loop_final:
  assumes "j < snd (polite_loop retries attempt rs)"
    and "\<And>a rest. snd (polite_loop retries a (rs ! j # rest)) = 1
            \<and> fst (polite_loop retries a (rs ! j # rest)) = r"
  shows "snd (polite_loop retries attempt rs) = Suc j \<and> fst (polite_loop retries attempt rs) = r"
  using assms
proof (induction rs arbitrary: attempt j)
  case Nil
  then show ?case by simp
next
  case (Cons x rs)
  show ?case
  proof (cases j)
    case 0
    with Cons.prems(2)[of attempt rs] show ?thesis by simp
  next
    case (Suc i)
    have fin: "\<And>a rest. snd (polite_loop retries a (rs ! i # rest)) = 1
            \<and> fst (polite_loop retries a (rs ! i # rest)) = r"
      using Cons.prems(2) Suc by simp
    have ih: "i < snd (polite_loop retries (attempt + 1) rs) \<Longrightarrow>
        snd (polite_loop retries (attempt + 1) rs) = Suc i
        \<and> fst (polite_loop retries (attempt + 1) rs) = r"
      using fin by (intro Cons.IH) simp_all
    from Cons.prems(1) Suc ih show ?thesis
      by (cases x) (auto split: if_splits option.splits)
  qed
qed

lemma polite_loop_returned:
  assumes "j < snd (polite_loop retries attempt rs)" and "rs ! j = Response st ra" and "st < 400"
  shows "snd (polite_loop retries attempt rs) = Suc j
       \<and> fst (polite_loop retries attempt rs) = Returned st"
proof -
  have "snd (polite_loop retries a (rs ! j # rest)) = 1
      \<and> fst (polite_loop retries a (rs ! j # rest)) = Returned st" for a rest
    using assms(2,3) by (auto simp: raise_for_status_def)
  with assms(1) show ?thesis by (rule polite_loop_final)
qed

lemma polite_loop_client_error:
  assumes "j < snd (polite_loop retries attempt rs)" and "rs ! j = Response st ra"
    and "400 \<le> st" "st < 500" "st \<noteq> 429"
  shows "snd (polite_loop retries attempt rs) = Suc j
       \<and> fst (polite_loop retries attempt rs) = Raised (HTTPError st)"
proof -
  have "snd (polite_loop retries a (rs ! j # rest)) = 1
      \<and> fst (polite_loop retries a (rs ! j # rest)) = Raised (HTTPError st)" for a rest
    using assms(2-) by (auto simp: raise_for_status_def)
  with assms(1) show ?thesis by (rule polite_loop_final)
qed

lemma polite_loop_went_on:
  "Suc i < snd (polite_loop retries attempt (x # rs)) \<Longrightarrow>
     polite_loop retries attempt (x # rs) = one_more (polite_loop retries (attempt + 1) rs)"
  by (cases x) (auto split: if_splits option.splits)

lemma polite_loop_shift:
  "j < snd (polite_loop retries attempt rs) \<Longrightarrow>
     fst (polite_loop retries attempt rs) = fst (polite_loop retries (attempt + int j) (drop j rs))
     \<and> snd (polite_loop retries attempt rs) = j + snd (polite_loop retries (attempt + int j) (drop j rs))"
proof (induction j arbitrary: attempt rs)
  case 0
  then show ?case by simp
next
  case (Suc i)
  then obtain x xs where rs: "rs = x # xs" by (cases rs) auto
  have eq: "polite_loop retries attempt (x # xs) = one_more (polite_loop retries (attempt + 1) xs)"
    using Suc.prems rs by (intro polite_loop_went_on) simp
  then have "i < snd (polite_loop retries (attempt + 1) xs)"
    using Suc.prems rs by simp
  then have "fst (polite_loop retries (attempt + 1) xs)
        = fst (polite_loop retries (attempt + 1 + int i) (drop i xs))
      \<and> snd (polite_loop retries (attempt + 1) xs)
        = i + snd (polite_loop retries (attempt + 1 + int i) (drop i xs))"
    by (rule Suc.IH)
  moreover have "attempt + 1 + int i = attempt + int (Suc i)" by simp
  ultimately have "fst (polite_loop retries (attempt + 1) xs)
        = fst (polite_loop retries (attempt + int (Suc i)) (drop i xs))
      \<and> snd (polite_loop retries (attempt + 1) xs)
        = i + snd (polite_loop retries (attempt + int (Suc i)) (drop i xs))"
    by (simp only:)
  then show ?case by (simp add: rs eq del: of_nat_Suc)
qed

lemma polite_loop_at:
  assumes "j < snd (polite_loop retries attempt rs)"
  shows "fst (polite_loop retries attempt rs)
           = fst (polite_loop retries (attempt + int j) (rs ! j # drop (Suc j) rs))
       \<and> snd (polite_loop retries attempt rs)
           = j + snd (polite_loop retries (attempt + int j) (rs ! j # drop (Suc j) rs))"
proof -
  have "j < length rs" using assms polite_loop_le_length[of retries attempt rs] by simp
  then have "drop j rs = rs ! j # drop (Suc j) rs" by (simp add: Cons_nth_drop_Suc)
  with polite_loop_shift[OF assms] show ?thesis by simp
qed

lemma polite_loop_budget:
  assumes "\<forall>x\<in>set rs. below_600 x" and "j < snd (polite_loop retries attempt rs)"
    and "retryable (rs ! j)" and "retries \<le> attempt + int j"
  shows "snd (polite_loop retries attempt rs) = Suc j
       \<and> fst (polite_loop retries attempt rs) = Raised (underlying (rs ! j))"
proof -
  have "j < length rs" using assms(2) polite_loop_le_length[of retries attempt rs] by simp
  then have b: "below_600 (rs ! j)" using assms(1) by simp
  have "polite_loop retries (attempt + int j) (rs ! j # rest) = (Raised (underlying (rs ! j)), 1)" for rest
    using b assms(3,4) by (cases "rs ! j") (auto simp: raise_for_status_def)
  with polite_loop_at[OF assms(2)] show ?thesis by simp
qed

lemma polite_loop_rejected:
  assumes "j < snd (polite_loop retries attempt rs)"
    and "rs ! j = Response 429 (RA_rejected e)" and "attempt + int j < retries"
  shows "snd (polite_loop retries attempt rs) = Suc j
       \<and> fst (polite_loop retries attempt rs) = Raised e"
proof -
  have "polite_loop retries (attempt + int j) (rs ! j # rest) = (Raised e, 1)" for rest
    using assms(2,3) by simp
  with polite_loop_at[OF assms(1)] show ?thesis by simp
qed

lemma polite_loop_goes_on:
  assumes "retries < 1024" and "j < snd (polite_loop retries attempt rs)"
    and "retryable (rs ! j)" and "attempt + int j < retries" and "\<not> rejected_hint (rs ! j)"
  shows "Suc j < snd (polite_loop retries attempt rs)
       \<or> (Suc j = length rs \<and> fst (polite_loop retries attempt rs) = Waiting)"
proof -
  have len: "j < length rs" using assms(2) polite_loop_le_length[of retries attempt rs] by simp
  have ok: "backoff_error (attempt + int j + 1) = None"
    using assms(1,4) by (intro backoff_ok) simp
  have hint: "hint_error (attempt + int j + 1) ra = None" if "rs ! j = Response 429 ra" for ra
    using that assms(5) ok by (cases ra) simp_all
  have step: "polite_loop retries (attempt + int j) (rs ! j # rest)
      = one_more (polite_loop retries (attempt + int j + 1) rest)" for rest
    using assms(3,4) ok hint by (cases "rs ! j") auto
  show ?thesis
  proof (cases "drop (Suc j) rs")
    case Nil
    then have "Suc j = length rs" using len by simp
    moreover have "fst (polite_loop retries attempt rs) = Waiting"
      using polite_loop_at[OF assms(2)] step Nil by simp
    ultimately show ?thesis by simp
  next
    case (Cons y ys)
    then have "0 < snd (polite_loop retries (attempt + int j + 1) (drop (Suc j) rs))"
      by (intro polite_loop_positive) simp
    then show ?thesis using polite_loop_at[OF assms(2)] step by simp
  qed
qed

text \<open>
  Claim C5, as amended. For a retry budget below 1024 and every sequence of outcomes whose
  statuses are below 600, the requests of \<^verbatim>\<open>polite_get\<close> go as follows. It makes at most
  \<open>1 + retries\<close> requests, and has returned or raised once that many outcomes are there.
  A request is followed by another one only after a network failure, a 429 or a status from
  500 on, and only within the budget. At the request it has reached: a status below 400 is
  returned to the caller; a status from 400 to 499 other than 429 is raised at once as the
  HTTP error of that status; a network failure, a 429 or a 5xx with the budget used up is
  raised as that failure; a 429 within the budget whose \<^verbatim>\<open>Retry-After\<close> value
  \<^verbatim>\<open>time.sleep\<close> rejects is raised as the error of the sleep; any other network failure,
  429 or 5xx within the budget is followed by the next request.
\<close>

theorem polite_get_retry_policy:
  assumes low: "\<forall>x\<in>set rs. below_600 x" and small: "retries < 1024"
  shows "snd (polite_get retries rs) \<le> nat retries + 1
    \<and> snd (polite_get retries rs) \<le> length rs
    \<and> (rs \<noteq> [] \<longrightarrow> 0 < snd (polite_get retries rs))
    \<and> (nat retries + 1 \<le> length rs \<longrightarrow> fst (polite_get retries rs) \<noteq> Waiting)
    \<and> (fst (polite_get retries rs) = Waiting \<longrightarrow> snd (polite_get retries rs) = length rs)
    \<and> (\<forall>j. Suc j < snd (polite_get retries rs) \<longrightarrow> retryable (rs ! j) \<and> int j < retries)
    \<and> (\<forall>j st ra. j < snd (polite_get retries rs) \<and> rs ! j = Response st ra \<and> st < 400
          \<longrightarrow> snd (polite_get retries rs) = Suc j
              \<and> fst (polite_get retries rs) = Returned st)
    \<and> (\<forall>j st ra. j < snd (polite_get retries rs) \<and> rs ! j = Response st ra
            \<and> 400 \<le> st \<and> st < 500 \<and> st \<noteq> 429
          \<longrightarrow> snd (polite_get retries rs) = Suc j
              \<and> fst (polite_get retries rs) = Raised (HTTPError st))
    \<and> (\<forall>j. j < snd (polite_get retries rs) \<and> retryable (rs ! j) \<and> retries \<le> int j
          \<longrightarrow> snd (polite_get retries rs) = Suc j
              \<and> fst (polite_get retries rs) = Raised (underlying (rs ! j)))
    \<and> (\<forall>j e. j < snd (polite_get retries rs) \<and> rs ! j = Response 429 (RA_rejected e)
            \<and> int j < retries
          \<longrightarrow> snd (polite_get retries rs) = Suc j
              \<and> fst (polite_get retries rs) = Raised e)
    \<and> (\<forall>j. j < snd (polite_get retries rs) \<and> retryable (rs ! j) \<and> int j < retries
            \<and> \<not> rejected_hint (rs ! j)
          \<longrightarrow> Suc j < snd (polite_get retries rs)
              \<or> (Suc j = length rs \<and> fst (polite_get retries rs) = Waiting))"
proof -
  have 1: "snd (polite_get retries rs) \<le> nat retries + 1"
    using polite_loop_count[OF low, of retries 0] by (simp add: polite_get_def)
  have 2: "snd (polite_get retries rs) \<le> length rs"
    by (simp add: polite_get_def polite_loop_le_length)
  have 3: "rs \<noteq> [] \<longrightarrow> 0 < snd (polite_get retries rs)"
    by (simp add: polite_get_def polite_loop_positive)
  have 4: "nat retries + 1 \<le> length rs \<longrightarrow> fst (polite_get retries rs) \<noteq> Waiting"
    using polite_loop_answers[OF low, of retries 0] by (simp add: polite_get_def)
  have 5: "fst (polite_get retries rs) = Waiting \<longrightarrow> snd (polite_get retries rs) = length rs"
    by (simp add: polite_get_def polite_loop_waiting)
  have 6: "\<forall>j. Suc j < snd (polite_get retries rs) \<longrightarrow> retryable (rs ! j) \<and> int j < retries"
    using polite_loop_retries_only[OF low, of _ retries 0] by (simp add: polite_get_def)
  have 7: "\<forall>j st ra. j < snd (polite_get retries rs) \<and> rs ! j = Response st ra \<and> st < 400
          \<longrightarrow> snd (polite_get retries rs) = Suc j
              \<and> fst (polite_get retries rs) = Returned st"
    unfolding polite_get_def by (intro allI impI polite_loop_returned) auto
  have 8: "\<forall>j st ra. j < snd (polite_get retries rs) \<and> rs ! j = Response st ra
            \<and> 400 \<le> st \<and> st < 500 \<and> st \<noteq> 429
          \<longrightarrow> snd (polite_get retries rs) = Suc j
              \<and> fst (polite_get retries rs) = Raised (HTTPError st)"
    unfolding polite_get_def by (intro allI impI polite_loop_client_error) auto
  have 9: "\<forall>j. j < snd (polite_get retries rs) \<and> retryable (rs ! j) \<and> retries \<le> int j
          \<longrightarrow> snd (polite_get retries rs) = Suc j
              \<and> fst (polite_get retries rs) = Raised (underlying (rs ! j))"
    unfolding polite_get_def by (intro allI impI polite_loop_budget[OF low]) auto
  have 10: "\<forall>j e. j < snd (polite_get retries rs) \<and> rs ! j = Response 429 (RA_rejected e)
            \<and> int j < retries
          \<longrightarrow> snd (polite_get retries rs) = Suc j
              \<and> fst (polite_get retries rs) = Raised e"
    unfolding polite_get_def by (intro allI impI polite_loop_rejected) auto
  have 11: "\<forall>j. j < snd (polite_get retries rs) \<and> retryable (rs ! j) \<and> int j < retries
            \<and> \<not> rejected_hint (rs ! j)
          \<longrightarrow> Suc j < snd (polite_get retries rs)
              \<or> (Suc j = length rs \<and> fst (polite_get retries rs) = Waiting)"
    unfolding polite_get_def by (intro allI impI polite_loop_goes_on[OF small]) auto
  show ?thesis by (intro conjI 1 2 3 4 5 6 7 8 9 10 11)
qed

theorem polite_get_retry_policy_witness:
  "default_retries < 1024
   \<and> snd (polite_get default_retries (replicate 7 (Response 503 RA_missing))) = 7
   \<and> fst (polite_get default_retries (replicate 7 (Response 503 RA_missing))) = Raised (HTTPError 503)
   \<and> snd (polite_get default_retries [ConnectionFailed, Response 429 RA_seconds, Response 200 RA_missing]) = 3
   \<and> fst (polite_get default_retries [ConnectionFailed, Response 429 RA_seconds, Response 200 RA_missing])
       = Returned 200"
proof -
  let ?rs = "replicate 7 (Response 503 RA_missing)"
  let ?qs = "[ConnectionFailed, Response 429 RA_seconds, Response 200 RA_missing]"
  have s: "default_retries < 1024" by (simp add: default_retries_def)
  have h: "\<forall>x\<in>set ?rs. below_600 x" by simp
  have g: "\<forall>x\<in>set ?qs. below_600 x" by simp
  have n: "6 < snd (polite_get default_retries ?rs)" by code_simp
  have m: "2 < snd (polite_get default_retries ?qs)" by code_simp
  note c = polite_get_retry_policy [OF h s]
  note d = polite_get_retry_policy [OF g s]
  note c9 = c [THEN conjunct2, THEN conjunct2, THEN conjunct2, THEN conjunct2, THEN conjunct2,
      THEN conjunct2, THEN conjunct2, THEN conjunct2, THEN conjunct1, rule_format, of 6]
  note d7 = d [THEN conjunct2, THEN conjunct2, THEN conjunct2, THEN conjunct2, THEN conjunct2,
      THEN conjunct2, THEN conjunct1, rule_format, of 2 200 RA_missing]
  have 1: "snd (polite_get default_retries ?rs) = Suc 6
      \<and> fst (polite_get default_retries ?rs) = Raised (underlying (?rs ! 6))"
    using n by (intro c9) (simp add: default_retries_def)
  have 2: "snd (polite_get default_retries ?qs) = Suc 2
      \<and> fst (polite_get default_retries ?qs) = Returned 200"
    using m by (intro d7) simp
  from s 1 2 show ?thesis by simp
qed

text \<open>
  Claim C5 as stated fails for a status that is not 2xx and below 400: 304 is returned to
  the caller, it is not raised.
\<close>

theorem polite_get_retry_policy_counterexample:
  "polite_get default_retries [Response 304 RA_missing] = (Returned 304, 1)"
  by (simp add: polite_get_def default_retries_def raise_for_status_def)

text \<open>
  Outside the amended claim: \<^verbatim>\<open>raise_for_status\<close> does not raise for a status from 600
  on, so the loop goes on past the budget; and from the 1024th attempt on the back-off
  itself overflows.
\<close>

lemma polite_get_status_700:
  "polite_get default_retries (replicate 8 (Response 700 RA_missing)) = (Waiting, 8)"
  by code_simp

lemma backoff_overflow:
  "polite_loop 2000 1023 [ConnectionFailed, Response 200 RA_missing] = (Raised OverflowError, 1)"
  by (simp add: backoff_error_def)

section \<open>Properties of the scan driver\<close>

lemma decodes_of_append: "decodes_of (xs @ ys) = decodes_of xs @ decodes_of ys"
  by (induction xs rule: decodes_of.induct) simp_all

lemma saves_of_append: "saves_of (xs @ ys) = saves_of xs @ saves_of ys"
  by (induction xs rule: saves_of.induct) simp_all

lemma quiet_append: "quiet (xs @ ys) \<longleftrightarrow> quiet xs \<and> quiet ys"
  by (induction xs rule: quiet.induct) simp_all

lemma saves_of_quiet: "quiet es \<Longrightarrow> saves_of es = []"
  by (induction es rule: quiet.induct) simp_all

lemma in_tick_quiet: "quiet pe \<Longrightarrow> in_tick t (pe @ es) = in_tick t es"
  by (induction pe rule: quiet.induct) simp_all

lemma trace_emit [simp]: "trace (emit e w) = trace w @ [e]"
  and state_file_emit [simp]: "state_file (emit e w) = state_file w"
  and results_file_emit [simp]: "results_file (emit e w) = results_file w"
  and clock_emit [simp]: "clock (emit e w) = clock w"
  by (simp_all add: emit_def)

lemma decoded_emit_Decode: "decoded (emit (Decode hx) w) = decoded w @ [hx]"
  by (simp add: decoded_def decodes_of_append)

lemma quietly_refl: "quietly w w"
  by (simp add: quietly_def)

lemma quietly_trans: "quietly w w1 \<Longrightarrow> quietly w1 w2 \<Longrightarrow> quietly w w2"
  by (auto simp: quietly_def quiet_append)

lemma quietly_Print: "quietly w (emit (Print l) w)"
  and quietly_Decode: "quietly w (emit (Decode hx) w)"
  and quietly_Append: "quietly w (emit (Append r) w)"
  by (simp_all add: quietly_def)

lemma quietly_clock: "quietly w (w\<lparr>clock := n\<rparr>)"
  by (simp add: quietly_def)

lemma append_match_quietly: "quietly w (fst (append_match rec w))"
  by (auto simp: append_match_def quietly_def split: sum.splits json.splits)

lemma append_match_trace: "trace (fst (append_match rec w)) = trace w"
  by (auto simp: append_match_def split: sum.splits json.splits)

lemma record_matches_quietly: "quietly w (fst (record_matches env tn txid url outs w))"
proof (induction outs arbitrary: w)
  case Nil
  then show ?case by (simp add: quietly_refl)
next
  case (Cons p outs)
  obtain pk amt where p: "p = (pk, amt)" by (cases p)
  show ?case
  proof (cases "amt = TARGET_AMOUNT env")
    case False
    with p Cons.IH show ?thesis by simp
  next
    case True
    let ?w1 = "emit (Print (Match tn txid (hex pk) amt url)) w"
    let ?rec = "JObj [(''tick'', tn), (''txId'', txid), (''pubkey_hex'', JStr (hex pk)),
                         (''amount'', JInt amt), (''explorer_url'', JStr url),
                         (''found_at'', JStr (utcnow_iso env (clock ?w1) @ ''Z''))]"
    let ?w2 = "emit (Append ?rec) (?w1\<lparr>clock := Suc (clock ?w1)\<rparr>)"
    have q2: "quietly w ?w2"
      by (simp add: quietly_def)
    obtain w3 r where am: "append_match ?rec ?w2 = (w3, r)" by (cases "append_match ?rec ?w2")
    have q3: "quietly w w3"
    proof (rule quietly_trans[OF q2])
      show "quietly ?w2 w3" using append_match_quietly[of ?w2 ?rec] am by simp
    qed
    show ?thesis
    proof (cases r)
      case None
      have "quietly w (fst (record_matches env tn txid url outs w3))"
        using q3 Cons.IH[of w3] by (rule quietly_trans)
      with p True am None show ?thesis by (simp add: Let_def)
    next
      case (Some e)
      with p True am q3 show ?thesis by (simp add: Let_def)
    qed
  qed
qed

lemma record_matches_decoded: "decoded (fst (record_matches env tn txid url outs w)) = decoded w"
proof (induction outs arbitrary: w)
  case Nil
  then show ?case by simp
next
  case (Cons p outs)
  obtain pk amt where p: "p = (pk, amt)" by (cases p)
  show ?case
  proof (cases "amt = TARGET_AMOUNT env")
    case False
    with p Cons.IH show ?thesis by simp
  next
    case True
    let ?w1 = "emit (Print (Match tn txid (hex pk) amt url)) w"
    let ?rec = "JObj [(''tick'', tn), (''txId'', txid), (''pubkey_hex'', JStr (hex pk)),
                         (''amount'', JInt amt), (''explorer_url'', JStr url),
                         (''found_at'', JStr (utcnow_iso env (clock ?w1) @ ''Z''))]"
    let ?w2 = "emit (Append ?rec) (?w1\<lparr>clock := Suc (clock ?w1)\<rparr>)"
    obtain w3 r where am: "append_match ?rec ?w2 = (w3, r)" by (cases "append_match ?rec ?w2")
    have d3: "decoded w3 = decoded w"
      using append_match_trace[of ?rec ?w2] am
      by (simp add: decoded_def decodes_of_append emit_def)
    show ?thesis
    proof (cases r)
      case None
      with p True am d3 Cons.IH[of w3] show ?thesis by (simp add: Let_def)
    next
      case (Some e)
      with p True am d3 show ?thesis by (simp add: Let_def)
    qed
  qed
qed

lemma process_wrap_quietly: "quietly w (fst (process_wrap env tick wr w))"
  by (auto simp: process_wrap_def Let_def quietly_refl quietly_Decode
      intro: quietly_trans[OF quietly_Decode record_matches_quietly]
      split: sum.splits bool.splits prod.splits)

lemma process_wraps_quietly: "quietly w (fst (process_wraps env tick wraps w))"
proof (induction wraps arbitrary: w)
  case Nil
  then show ?case by (simp add: quietly_refl)
next
  case (Cons wr wraps)
  obtain w1 r where pw: "process_wrap env tick wr w = (w1, r)" by (cases "process_wrap env tick wr w")
  then have q: "quietly w w1" using process_wrap_quietly[of w env tick wr] by simp
  show ?case
  proof (cases r)
    case None
    have "quietly w (fst (process_wraps env tick wraps w1))"
      using q Cons.IH[of w1] by (rule quietly_trans)
    with pw None show ?thesis by simp
  next
    case (Some e)
    with pw q show ?thesis by simp
  qed
qed

text \<open>
  Claim C8. Processing one fetched wrapper either leaves the history of decoder calls as it
  is, or adds exactly the \<^verbatim>\<open>inputHex\<close> of its transaction, and then the transaction's
  \<^verbatim>\<open>inputType\<close> equals 1 (as Python's \<^verbatim>\<open>==\<close> has it), it has an \<^verbatim>\<open>inputHex\<close>
  field, and its \<^verbatim>\<open>destId\<close> equals the configured identifier when one is configured.
  A transaction whose \<^verbatim>\<open>inputType\<close> is not 1 is skipped: nothing changes and nothing is
  raised, whatever its payload.
\<close>

theorem decoder_called_only_after_filters:
  "(decoded (fst (process_wrap env tick wr w)) = decoded w
      \<or> (\<exists>tx ty hx.
            wrap_tx wr = Inr tx
          \<and> py_get tx ''inputType'' JNull = Inr ty \<and> eq_int ty 1
          \<and> py_item tx ''inputHex'' = Inr hx
          \<and> (\<forall>d. QUTIL_DEST_ID env = Some d \<and> d \<noteq> []
                 \<longrightarrow> (\<exists>v. py_get tx ''destId'' JNull = Inr v \<and> eq_str v d))
          \<and> decoded (fst (process_wrap env tick wr w)) = decoded w @ [hx]))
   \<and> (\<forall>tx ty. wrap_tx wr = Inr tx \<and> py_get tx ''inputType'' JNull = Inr ty \<and> \<not> eq_int ty 1
          \<longrightarrow> process_wrap env tick wr w = (w, None))"
proof (intro conjI allI impI)
  show "decoded (fst (process_wrap env tick wr w)) = decoded w
      \<or> (\<exists>tx ty hx.
            wrap_tx wr = Inr tx
          \<and> py_get tx ''inputType'' JNull = Inr ty \<and> eq_int ty 1
          \<and> py_item tx ''inputHex'' = Inr hx
          \<and> (\<forall>d. QUTIL_DEST_ID env = Some d \<and> d \<noteq> []
                 \<longrightarrow> (\<exists>v. py_get tx ''destId'' JNull = Inr v \<and> eq_str v d))
          \<and> decoded (fst (process_wrap env tick wr w)) = decoded w @ [hx])"
    by (auto simp: process_wrap_def Let_def record_matches_decoded decoded_emit_Decode
          skip_by_dest_def skip_by_type_def
        split: sum.splits bool.splits prod.splits option.splits if_splits)
next
  fix tx ty
  assume h: "wrap_tx wr = Inr tx \<and> py_get tx ''inputType'' JNull = Inr ty \<and> \<not> eq_int ty 1"
  then obtain kvs where tx: "tx = JObj kvs"
    by (cases tx) (auto simp: py_get_def)
  have "skip_by_type tx = Inr True" using h by (simp add: skip_by_type_def)
  moreover have "\<exists>b. skip_by_dest env tx = Inr b"
    using tx by (auto simp: skip_by_dest_def py_get_def split: option.splits)
  ultimately show "process_wrap env tick wr w = (w, None)"
    using h by (auto simp: process_wrap_def split: bool.splits)
qed

theorem decoder_called_only_after_filters_witness:
  "wrap_tx (sample_tx ''QUTIL'' 2)
     = Inr (JObj [(''destId'', JStr ''QUTIL''), (''inputType'', JInt 2),
                  (''inputHex'', JStr sample_payload), (''txId'', JStr ''tx1'')])
   \<and> \<not> eq_int (JInt 2) 1
   \<and> process_wrap sample_env 11 (sample_tx ''QUTIL'' 2) fresh_world = (fresh_world, None)"
proof -
  let ?tx = "JObj [(''destId'', JStr ''QUTIL''), (''inputType'', JInt 2),
                  (''inputHex'', JStr sample_payload), (''txId'', JStr ''tx1'')]"
  have h1: "wrap_tx (sample_tx ''QUTIL'' 2) = Inr ?tx"
    by (simp add: wrap_tx_def sample_tx_def py_get_def)
  have h2: "py_get ?tx ''inputType'' JNull = Inr (JInt 2)" by (simp add: py_get_def)
  have h3: "\<not> eq_int (JInt 2) 1" by simp
  note c = decoder_called_only_after_filters [of sample_env 11 "sample_tx ''QUTIL'' 2" fresh_world,
      THEN conjunct2, rule_format, of ?tx "JInt 2"]
  have "process_wrap sample_env 11 (sample_tx ''QUTIL'' 2) fresh_world = (fresh_world, None)"
    by (rule c) (intro conjI h1 h2 h3)
  with h1 h3 show ?thesis by (intro conjI)
qed

subsection \<open>The events of a run of the loop\<close>

lemma map_of_dict_set: "map_of (dict_set kvs k v) k = Some v"
  by (induction kvs) auto

lemma upt_shift: "map f [0..<Suc k] = f 0 # map (\<lambda>j. f (Suc j)) [0..<k]"
proof -
  have "[0..<Suc k] = 0 # map Suc [0..<k]"
    by (simp only: map_Suc_upt upt_conv_Cons[OF zero_less_Suc])
  then show ?thesis by (simp add: comp_def del: upt_Suc)
qed

lemma ticks_saved_Nil: "ticks_saved t []"
  by (simp add: ticks_saved_def)

lemma ticks_saved_Cons:
  assumes "next_tick_of s = Some (t + 1)" and "ticks_saved (t + 1) new"
  shows "ticks_saved t (s # new)"
proof -
  have "map (\<lambda>j. Some (t + 1 + int j)) [0..<length (s # new)]
      = Some (t + 1) # map (\<lambda>j. Some (t + 1 + 1 + int j)) [0..<length new]"
    by (simp only: length_Cons upt_shift) (simp add: algebra_simps)
  then show ?thesis using assms by (simp add: ticks_saved_def del: upt_Suc)
qed


lemma advance_facts:
  "trace (snd (advance st tick w)) = trace w @ [Save (JObj (fst (advance st tick w)))]"
  "state_file (snd (advance st tick w)) = Content (JObj (fst (advance st tick w)))"
  "next_tick_of (JObj (fst (advance st tick w))) = Some (tick + 1)"
  "fst (advance st tick w) = dict_set st ''next_tick'' (JInt (tick + 1))"
  "results_file (snd (advance st tick w)) = results_file w"
  by (simp_all add: advance_def save_state_def Let_def map_of_dict_set)

lemma scan_loop_stop:
  "\<not> tick \<le> END_TICK env \<Longrightarrow> scan_loop env st tick w = (w, None)"
  by (subst scan_loop.simps) simp

lemma scan_loop_fail:
  "tick \<le> END_TICK env \<Longrightarrow> get_tick_transactions env tick = Inl e \<Longrightarrow>
   scan_loop env st tick w =
     scan_loop env (fst (advance st tick (emit (Print (Warn tick e)) (emit (Fetch tick) w))))
       (tick + 1)
       (snd (advance st tick (emit (Print (Warn tick e)) (emit (Fetch tick) w))))"
  by (subst scan_loop.simps) simp

lemma scan_loop_ok:
  "tick \<le> END_TICK env \<Longrightarrow> get_tick_transactions env tick = Inr wraps \<Longrightarrow>
   process_wraps env tick wraps (emit (Fetch tick) w) = (w1, None) \<Longrightarrow>
   scan_loop env st tick w =
     scan_loop env (fst (advance st tick w1)) (tick + 1) (snd (advance st tick w1))"
  by (subst scan_loop.simps) simp

lemma scan_loop_raise:
  "tick \<le> END_TICK env \<Longrightarrow> get_tick_transactions env tick = Inr wraps \<Longrightarrow>
   process_wraps env tick wraps (emit (Fetch tick) w) = (w1, Some e) \<Longrightarrow>
   scan_loop env st tick w = (w1, Some e)"
  by (subst scan_loop.simps) simp

lemma loop_run_stop:
  "\<not> tick \<le> END_TICK env \<Longrightarrow> loop_run env tick w (w, None) []"
  by (simp add: loop_run_def ticks_saved_Nil)

lemma loop_run_raise:
  assumes le: "tick \<le> END_TICK env" and q: "quietly (emit (Fetch tick) w) w1"
  shows "\<exists>evs. loop_run env tick w (w1, Some e) evs"
proof -
  obtain pe where pe: "trace w1 = trace (emit (Fetch tick) w) @ pe" "quiet pe"
    and sf: "state_file w1 = state_file w"
    using q by (auto simp: quietly_def)
  let ?evs = "Fetch tick # pe"
  have tr: "trace w1 = trace w @ ?evs" using pe(1) by simp
  have sv: "saves_of ?evs = []" using pe(2) by (simp add: saves_of_quiet)
  have "in_tick tick (pe @ []) = in_tick tick []" using pe(2) by (rule in_tick_quiet)
  then have tk: "ticked tick ?evs = Some (tick, True)" by simp
  have "loop_run env tick w (w1, Some e) ?evs"
    unfolding loop_run_def using tr sv tk sf le by (simp add: ticks_saved_Nil)
  then show ?thesis ..
qed

lemma loop_run_step:
  assumes le: "tick \<le> END_TICK env" and q: "quietly (emit (Fetch tick) w) w1"
    and rest: "loop_run env (tick + 1) (snd (advance st tick w1)) res evs'"
  shows "\<exists>evs. loop_run env tick w res evs"
proof -
  obtain pe where pe: "trace w1 = trace (emit (Fetch tick) w) @ pe" "quiet pe"
    using q by (auto simp: quietly_def)
  define s where "s = JObj (fst (advance st tick w1))"
  define evs where "evs = Fetch tick # pe @ Save s # evs'"
  have nt: "next_tick_of s = Some (tick + 1)" unfolding s_def by (rule advance_facts(3))
  have tr: "trace (fst res) = trace w @ evs"
    using rest pe(1) by (simp add: loop_run_def advance_facts evs_def s_def)
  have sv: "saves_of evs = s # saves_of evs'"
    using pe(2) by (simp add: evs_def saves_of_append saves_of_quiet)
  have "ticked tick evs = in_tick tick (pe @ Save s # evs')" by (simp add: evs_def)
  also have "\<dots> = in_tick tick (Save s # evs')" using pe(2) by (rule in_tick_quiet)
  also have "\<dots> = ticked (tick + 1) evs'" using nt by simp
  also have "\<dots> = Some (tick + 1 + int (length (saves_of evs')), snd res \<noteq> None)"
    using rest by (simp add: loop_run_def)
  finally have tk: "ticked tick evs = Some (tick + int (length (saves_of evs)), snd res \<noteq> None)"
    by (simp add: sv add.assoc)
  have ts: "ticks_saved tick (saves_of evs)"
    unfolding sv using nt
  proof (rule ticks_saved_Cons)
    show "ticks_saved (tick + 1) (saves_of evs')" using rest by (simp add: loop_run_def)
  qed
  have fin: "snd res = None \<longrightarrow> int (length (saves_of evs)) = max 0 (END_TICK env - tick + 1)"
    using rest le by (simp add: loop_run_def sv)
  have rai: "snd res \<noteq> None \<longrightarrow> tick + int (length (saves_of evs)) \<le> END_TICK env"
    using rest by (auto simp: loop_run_def sv)
  have sf: "state_file (fst res) = (if saves_of evs = [] then state_file w else Content (last (saves_of evs)))"
    using rest by (simp add: loop_run_def sv advance_facts s_def)
  have "loop_run env tick w res evs"
    unfolding loop_run_def by (intro conjI tr tk ts fin rai sf)
  then show ?thesis ..
qed

lemma scan_loop_events:
  "\<exists>evs. loop_run env tick w (scan_loop env st tick w) evs"
proof (induction "nat (END_TICK env - tick + 1)" arbitrary: tick st w)
  case 0
  then have "\<not> tick \<le> END_TICK env" by simp
  then have "scan_loop env st tick w = (w, None)" "loop_run env tick w (w, None) []"
    by (rule scan_loop_stop, rule loop_run_stop)
  then have "loop_run env tick w (scan_loop env st tick w) []" by simp
  then show ?case ..
next
  case (Suc n)
  then have le: "tick \<le> END_TICK env" and n: "n = nat (END_TICK env - (tick + 1) + 1)" by simp_all
  show ?case
  proof (cases "get_tick_transactions env tick")
    case (Inl e)
    let ?w1 = "emit (Print (Warn tick e)) (emit (Fetch tick) w)"
    have q: "quietly (emit (Fetch tick) w) ?w1" by (rule quietly_Print)
    obtain evs' where "loop_run env (tick + 1) (snd (advance st tick ?w1))
        (scan_loop env (fst (advance st tick ?w1)) (tick + 1) (snd (advance st tick ?w1))) evs'"
      using Suc.hyps(1)[OF n] by blast
    then have "loop_run env (tick + 1) (snd (advance st tick ?w1)) (scan_loop env st tick w) evs'"
      by (simp only: scan_loop_fail[OF le Inl])
    with le q show ?thesis by (rule loop_run_step)
  next
    case (Inr wraps)
    obtain w1 r where pw: "process_wraps env tick wraps (emit (Fetch tick) w) = (w1, r)"
      by (cases "process_wraps env tick wraps (emit (Fetch tick) w)")
    then have q: "quietly (emit (Fetch tick) w) w1"
      using process_wraps_quietly[of "emit (Fetch tick) w" env tick wraps] by simp
    show ?thesis
    proof (cases r)
      case None
      obtain evs' where "loop_run env (tick + 1) (snd (advance st tick w1))
          (scan_loop env (fst (advance st tick w1)) (tick + 1) (snd (advance st tick w1))) evs'"
        using Suc.hyps(1)[OF n] by blast
      then have "loop_run env (tick + 1) (snd (advance st tick w1)) (scan_loop env st tick w) evs'"
        by (simp only: scan_loop_ok[OF le Inr pw[unfolded None]])
      with le q show ?thesis by (rule loop_run_step)
    next
      case (Some e)
      have "scan_loop env st tick w = (w1, Some e)"
        using le Inr pw[unfolded Some] by (rule scan_loop_raise)
      then show ?thesis using loop_run_raise[OF le q, of e] by simp
    qed
  qed
qed




lemma ticked_Cons: "ticked t (e # es) = Some r \<Longrightarrow> e = Fetch t"
  by (cases e) (auto split: if_splits)

lemma scan_loop_starts:
  assumes le: "tick \<le> END_TICK env"
  shows "\<exists>rest. trace (fst (scan_loop env st tick w)) = trace w @ Fetch tick # rest"
proof -
  obtain evs where evs: "loop_run env tick w (scan_loop env st tick w) evs"
    using scan_loop_events by blast
  have "evs \<noteq> []"
  proof
    assume e: "evs = []"
    show False
    proof (cases "snd (scan_loop env st tick w)")
      case None
      with evs e le show False by (simp add: loop_run_def)
    next
      case (Some x)
      with evs e show False by (simp add: loop_run_def)
    qed
  qed
  then obtain e es where c: "evs = e # es" by (cases evs) auto
  have "ticked tick (e # es) = Some (tick + int (length (saves_of evs)), snd (scan_loop env st tick w) \<noteq> None)"
    using evs c by (simp add: loop_run_def)
  then have "e = Fetch tick" by (rule ticked_Cons)
  with evs c have "trace (fst (scan_loop env st tick w)) = trace w @ Fetch tick # es"
    by (simp add: loop_run_def)
  then show ?thesis ..
qed

text \<open>
  Claim C4. When the fetch of a tick within range raises, the events of the loop from that
  tick are: the fetch, the printed warning, the save of the state with
  \<open>next_tick = tick + 1\<close>, and then, with no decoder call and no appended match in between,
  the fetch of the next tick if there is one; if there is none the loop ends without an
  exception and the progress file holds that state. The loop as a whole gives what the loop
  from the next tick gives in the world in which these three things are done.
\<close>

theorem scan_loop_skips_failed_tick:
  assumes le: "tick \<le> END_TICK env" and failed: "get_tick_transactions env tick = Inl e"
  shows "(\<exists>rest. trace (fst (scan_loop env state tick w))
                = trace w @ [Fetch tick, Print (Warn tick e),
                             Save (JObj (dict_set state ''next_tick'' (JInt (tick + 1))))] @ rest
           \<and> (tick + 1 \<le> END_TICK env \<longrightarrow> (\<exists>rest'. rest = Fetch (tick + 1) # rest'))
           \<and> (\<not> tick + 1 \<le> END_TICK env \<longrightarrow>
                rest = [] \<and> snd (scan_loop env state tick w) = None
                \<and> state_file (fst (scan_loop env state tick w))
                    = Content (JObj (dict_set state ''next_tick'' (JInt (tick + 1))))))
       \<and> next_tick_of (JObj (dict_set state ''next_tick'' (JInt (tick + 1)))) = Some (tick + 1)
       \<and> scan_loop env state tick w =
           scan_loop env (dict_set state ''next_tick'' (JInt (tick + 1))) (tick + 1)
             (w\<lparr>state_file := Content (JObj (dict_set state ''next_tick'' (JInt (tick + 1)))),
                trace := trace w @ [Fetch tick, Print (Warn tick e),
                                    Save (JObj (dict_set state ''next_tick'' (JInt (tick + 1))))]\<rparr>)"
proof -
  define st' where "st' = dict_set state ''next_tick'' (JInt (tick + 1))"
  define w' where "w' = w\<lparr>state_file := Content (JObj st'),
                trace := trace w @ [Fetch tick, Print (Warn tick e), Save (JObj st')]\<rparr>"
  have adv: "fst (advance state tick (emit (Print (Warn tick e)) (emit (Fetch tick) w))) = st'"
    "snd (advance state tick (emit (Print (Warn tick e)) (emit (Fetch tick) w))) = w'"
    by (simp_all add: advance_def save_state_def Let_def emit_def st'_def w'_def)
  have eq: "scan_loop env state tick w = scan_loop env st' (tick + 1) w'"
    using scan_loop_fail[OF le failed, of state w] by (simp only: adv)
  have tw: "trace w' = trace w @ [Fetch tick, Print (Warn tick e), Save (JObj st')]"
    and sw: "state_file w' = Content (JObj st')"
    by (simp_all add: w'_def)
  have nt: "next_tick_of (JObj st') = Some (tick + 1)" by (simp add: st'_def map_of_dict_set)
  have ex: "\<exists>rest. trace (fst (scan_loop env state tick w))
                = trace w @ [Fetch tick, Print (Warn tick e), Save (JObj st')] @ rest
           \<and> (tick + 1 \<le> END_TICK env \<longrightarrow> (\<exists>rest'. rest = Fetch (tick + 1) # rest'))
           \<and> (\<not> tick + 1 \<le> END_TICK env \<longrightarrow>
                rest = [] \<and> snd (scan_loop env state tick w) = None
                \<and> state_file (fst (scan_loop env state tick w)) = Content (JObj st'))"
  proof (cases "tick + 1 \<le> END_TICK env")
    case True
    then obtain rest' where "trace (fst (scan_loop env st' (tick + 1) w')) = trace w' @ Fetch (tick + 1) # rest'"
      using scan_loop_starts by blast
    then have "trace (fst (scan_loop env state tick w))
        = trace w @ [Fetch tick, Print (Warn tick e), Save (JObj st')] @ Fetch (tick + 1) # rest'"
      by (simp add: eq tw)
    with True show ?thesis by blast
  next
    case False
    then have "scan_loop env st' (tick + 1) w' = (w', None)" by (rule scan_loop_stop)
    then have "trace (fst (scan_loop env state tick w))
        = trace w @ [Fetch tick, Print (Warn tick e), Save (JObj st')] @ []"
      and "snd (scan_loop env state tick w) = None"
      and "state_file (fst (scan_loop env state tick w)) = Content (JObj st')"
      by (simp_all add: eq tw sw)
    with False show ?thesis by blast
  qed
  show ?thesis
    using ex nt eq unfolding st'_def w'_def by (intro conjI)
qed

theorem scan_loop_skips_failed_tick_witness:
  "10 \<le> END_TICK sample_env
   \<and> get_tick_transactions sample_env 10 = Inl RequestException
   \<and> (\<exists>rest'. trace (fst (scan_loop sample_env [(''next_tick'', JInt 10)] 10 fresh_world))
         = [Fetch 10, Print (Warn 10 RequestException), Save (JObj [(''next_tick'', JInt 11)]),
            Fetch 11] @ rest')"
proof -
  have h1: "10 \<le> END_TICK sample_env" by (simp add: sample_env_def)
  have h2: "get_tick_transactions sample_env 10 = Inl RequestException"
    by (simp add: get_tick_transactions_def sample_env_def sample_http_def)
  have h3: "10 + 1 \<le> END_TICK sample_env" by (simp add: sample_env_def)
  from scan_loop_skips_failed_tick [OF h1 h2, of "[(''next_tick'', JInt 10)]" fresh_world,
      THEN conjunct1]
  obtain rest where rest: "trace (fst (scan_loop sample_env [(''next_tick'', JInt 10)] 10 fresh_world))
                = trace fresh_world @ [Fetch 10, Print (Warn 10 RequestException),
                     Save (JObj (dict_set [(''next_tick'', JInt 10)] ''next_tick'' (JInt (10 + 1))))] @ rest
           \<and> (10 + 1 \<le> END_TICK sample_env \<longrightarrow> (\<exists>rest'. rest = Fetch (10 + 1) # rest'))
           \<and> (\<not> 10 + 1 \<le> END_TICK sample_env \<longrightarrow>
                rest = [] \<and> snd (scan_loop sample_env [(''next_tick'', JInt 10)] 10 fresh_world) = None
                \<and> state_file (fst (scan_loop sample_env [(''next_tick'', JInt 10)] 10 fresh_world))
                    = Content (JObj (dict_set [(''next_tick'', JInt 10)] ''next_tick'' (JInt (10 + 1)))))" ..
  from rest [THEN conjunct2, THEN conjunct1, THEN mp, OF h3]
  obtain rest' where r: "rest = Fetch (10 + 1) # rest'" ..
  have "trace (fst (scan_loop sample_env [(''next_tick'', JInt 10)] 10 fresh_world))
         = [Fetch 10, Print (Warn 10 RequestException), Save (JObj [(''next_tick'', JInt 11)]),
            Fetch 11] @ rest'"
    using rest [THEN conjunct1] r by (simp add: fresh_world_def)
  then have "\<exists>rest'. trace (fst (scan_loop sample_env [(''next_tick'', JInt 10)] 10 fresh_world))
         = [Fetch 10, Print (Warn 10 RequestException), Save (JObj [(''next_tick'', JInt 11)]),
            Fetch 11] @ rest'" ..
  with h1 h2 show ?thesis by (intro conjI)
qed

subsection \<open>Start-up on a stored value\<close>

lemma scan_raises_at_startup:
  "load_state env w = Inr v \<Longrightarrow> initial_tick env v = Inl e \<Longrightarrow> scan env w = (w, Some e)"
  by (simp add: scan_def)

text \<open>
  Claim C10, as amended. When the progress file exists and \<^verbatim>\<open>json.load\<close> returns a value
  for it, \<^verbatim>\<open>load_state\<close> returns that value unchanged. \<^verbatim>\<open>scan\<close> then raises at
  start-up, before anything is printed or saved: \<^verbatim>\<open>AttributeError\<close> if the value is not
  an object, \<^verbatim>\<open>TypeError\<close> if it is an object whose \<^verbatim>\<open>next_tick\<close> is null, an array or
  an object, and the error of \<^verbatim>\<open>int()\<close> if \<^verbatim>\<open>next_tick\<close> is a string that \<^verbatim>\<open>int()\<close>
  rejects. For an object without \<^verbatim>\<open>next_tick\<close> the cursor is \<open>START_TICK\<close>.
\<close>

theorem scan_startup_raises:
  assumes stored: "state_file w = Content v"
  shows "load_state env w = Inr v
    \<and> ((\<forall>kvs. v \<noteq> JObj kvs) \<longrightarrow> scan env w = (w, Some AttributeError))
    \<and> (\<forall>kvs x. v = JObj kvs \<and> map_of kvs ''next_tick'' = Some x
            \<and> (x = JNull \<or> (\<exists>xs. x = JArr xs) \<or> (\<exists>m. x = JObj m))
          \<longrightarrow> scan env w = (w, Some TypeError))
    \<and> (\<forall>kvs s e. v = JObj kvs \<and> map_of kvs ''next_tick'' = Some (JStr s)
            \<and> int_of_str env s = Inl e
          \<longrightarrow> scan env w = (w, Some e))
    \<and> (\<forall>kvs. v = JObj kvs \<and> map_of kvs ''next_tick'' = None
          \<longrightarrow> initial_tick env v = Inr (START_TICK env))"
proof -
  have ld: "load_state env w = Inr v" using stored by (simp add: load_state_def)
  have a: "(\<forall>kvs. v \<noteq> JObj kvs) \<longrightarrow> scan env w = (w, Some AttributeError)"
  proof
    assume "\<forall>kvs. v \<noteq> JObj kvs"
    then have "initial_tick env v = Inl AttributeError"
      by (cases v) (simp_all add: initial_tick_def py_get_def)
    with ld show "scan env w = (w, Some AttributeError)" by (rule scan_raises_at_startup)
  qed
  have b: "\<forall>kvs x. v = JObj kvs \<and> map_of kvs ''next_tick'' = Some x
            \<and> (x = JNull \<or> (\<exists>xs. x = JArr xs) \<or> (\<exists>m. x = JObj m))
          \<longrightarrow> scan env w = (w, Some TypeError)"
  proof (intro allI impI)
    fix kvs x
    assume h: "v = JObj kvs \<and> map_of kvs ''next_tick'' = Some x
            \<and> (x = JNull \<or> (\<exists>xs. x = JArr xs) \<or> (\<exists>m. x = JObj m))"
    then have "initial_tick env v = Inl TypeError"
      by (auto simp: initial_tick_def py_get_def)
    with ld show "scan env w = (w, Some TypeError)" by (rule scan_raises_at_startup)
  qed
  have c: "\<forall>kvs s e. v = JObj kvs \<and> map_of kvs ''next_tick'' = Some (JStr s)
            \<and> int_of_str env s = Inl e
          \<longrightarrow> scan env w = (w, Some e)"
  proof (intro allI impI)
    fix kvs s e
    assume h: "v = JObj kvs \<and> map_of kvs ''next_tick'' = Some (JStr s) \<and> int_of_str env s = Inl e"
    then have "initial_tick env v = Inl e"
      by (simp add: initial_tick_def py_get_def)
    with ld show "scan env w = (w, Some e)" by (rule scan_raises_at_startup)
  qed
  have d: "\<forall>kvs. v = JObj kvs \<and> map_of kvs ''next_tick'' = None
          \<longrightarrow> initial_tick env v = Inr (START_TICK env)"
    by (simp add: initial_tick_def py_get_def)
  show ?thesis by (intro conjI ld a b c d)
qed

theorem scan_startup_raises_witness:
  "state_file (fresh_world\<lparr>state_file := Content (JObj [(''next_tick'', JStr ''abc'')])\<rparr>)
     = Content (JObj [(''next_tick'', JStr ''abc'')])
   \<and> int_of_str sample_env ''abc'' = Inl ValueError
   \<and> load_state sample_env (fresh_world\<lparr>state_file := Content (JObj [(''next_tick'', JStr ''abc'')])\<rparr>)
       = Inr (JObj [(''next_tick'', JStr ''abc'')])
   \<and> scan sample_env (fresh_world\<lparr>state_file := Content (JObj [(''next_tick'', JStr ''abc'')])\<rparr>)
       = (fresh_world\<lparr>state_file := Content (JObj [(''next_tick'', JStr ''abc'')])\<rparr>, Some ValueError)
   \<and> state_file (fresh_world\<lparr>state_file := Content (JArr [])\<rparr>) = Content (JArr [])
   \<and> scan sample_env (fresh_world\<lparr>state_file := Content (JArr [])\<rparr>)
       = (fresh_world\<lparr>state_file := Content (JArr [])\<rparr>, Some AttributeError)"
proof -
  let ?v = "JObj [(''next_tick'', JStr ''abc'')]"
  let ?w = "fresh_world\<lparr>state_file := Content ?v\<rparr>"
  let ?u = "fresh_world\<lparr>state_file := Content (JArr [])\<rparr>"
  have f: "state_file ?w = Content ?v" by simp
  have g: "state_file ?u = Content (JArr [])" by simp
  have i: "int_of_str sample_env ''abc'' = Inl ValueError"
    by (simp add: sample_env_def sample_int_of_str_def)
  note c = scan_startup_raises [OF f, of sample_env]
  note d = scan_startup_raises [OF g, of sample_env]
  have 1: "load_state sample_env ?w = Inr ?v" by (rule c [THEN conjunct1])
  have "?v = JObj [(''next_tick'', JStr ''abc'')]
          \<and> map_of [(''next_tick'', JStr ''abc'')] ''next_tick'' = Some (JStr ''abc'')
          \<and> int_of_str sample_env ''abc'' = Inl ValueError"
    using i by simp
  then have 2: "scan sample_env ?w = (?w, Some ValueError)"
    by (rule c [THEN conjunct2, THEN conjunct2, THEN conjunct2, THEN conjunct1, rule_format])
  have "\<forall>kvs. JArr [] \<noteq> JObj kvs" by simp
  then have 3: "scan sample_env ?u = (?u, Some AttributeError)"
    by (rule d [THEN conjunct2, THEN conjunct1, THEN mp])
  show ?thesis by (intro conjI f i 1 2 g 3)
qed

text \<open>
  Claim C10 as stated fails for an object without a \<^verbatim>\<open>next_tick\<close> field: the empty
  object is valid JSON with no numeric \<^verbatim>\<open>next_tick\<close>, \<^verbatim>\<open>load_state\<close> returns it, and
  the scan starts at \<open>START_TICK\<close> and ends without an exception.
\<close>

theorem scan_startup_counterexample:
  "load_state sample_env (fresh_world\<lparr>state_file := Content (JObj [])\<rparr>) = Inr (JObj [])
   \<and> next_tick_of (JObj []) = None
   \<and> snd (scan sample_env (fresh_world\<lparr>state_file := Content (JObj [])\<rparr>)) = None"
  by code_simp

end
